theory Spec2Isabelle
  imports Complex_Main
begin

section \<open>Configuration (config/config.py)\<close>

definition CHUNK_SIZE :: nat where
  "CHUNK_SIZE = 300"

definition CHUNK_OVERLAP :: nat where
  "CHUNK_OVERLAP = 50"

definition SCRAPE_DELAY :: nat where
  "SCRAPE_DELAY = 1"

section \<open>Data model (src/models/document.py)\<close>

text \<open>
  An ObjectId is an opaque identifier; the default factory \<open>PyObjectId()\<close> draws a new one
  on every call, modelled by the counter \<open>next_oid\<close> of the service state below. A datetime
  is an opaque point in time. A FAISS vector is a list of numbers.
\<close>

type_synonym object_id = nat
type_synonym datetime = nat
type_synonym vector = "real list"

text \<open>
  \<open>Chunk\<close>: \<open>id\<close> (alias \<open>_id\<close>), \<open>text\<close>, \<open>chunk_index\<close>, \<open>article_id\<close>,
  \<open>faiss_id: Optional[int] = None\<close>.
\<close>

record chunk =
  chunk_oid :: object_id
  chunk_text :: string
  chunk_index :: nat
  article_id :: object_id
  faiss_id :: "int option"

text \<open>
  \<open>Article\<close>: \<open>id\<close> (alias \<open>_id\<close>), \<open>title\<close>, \<open>content\<close>, \<open>url\<close>, \<open>source\<close>,
  \<open>date_published: Optional[datetime]\<close>, \<open>processed: Optional[bool]\<close>, \<open>date_ingested\<close>.
  The fields \<open>chunks\<close> and \<open>metadata\<close> keep their defaults (\<open>[]\<close> and \<open>{}\<close>) on every
  path modelled here and are left out.
\<close>

record article =
  oid :: object_id
  title :: string
  content :: string
  url :: string
  source :: string
  date_published :: "datetime option"
  processed :: "bool option"
  date_ingested :: datetime

text \<open>Every exception the modelled paths can raise.\<close>

datatype error = WriteError | DuplicateKeyError | InvalidId | AttributeError | ValueError

section \<open>The document store (src/services/db_service.py)\<close>

text \<open>
  The MongoDB database \<open>leo_chat\<close> with its two collections, each a list of documents in
  insertion order. \<open>_setup_indexes\<close> is an \<open>async def\<close> that \<open>__init__\<close> calls without
  awaiting it, so the service itself creates no index; the store below enforces only what
  MongoDB enforces on every collection: \<open>_id\<close> is unique and immutable.
\<close>

record database =
  articles :: "article list"
  chunks :: "chunk list"

text \<open>\<open>count_documents({"url": url}) > 0\<close>\<close>

definition article_exists :: "database \<Rightarrow> string \<Rightarrow> bool" where
  "article_exists d u = (0 < length (filter (\<lambda>a. url a = u) (articles d)))"

text \<open>\<open>update_one\<close> changes the first document that matches the filter, and only that one.\<close>

fun update_first :: "('a \<Rightarrow> bool) \<Rightarrow> ('a \<Rightarrow> 'a) \<Rightarrow> 'a list \<Rightarrow> 'a list" where
  "update_first P f [] = []"
| "update_first P f (x # xs) = (if P x then f x # xs else x # update_first P f xs)"

text \<open>
  \<open>result.upserted_id or result.modified_count\<close>: the new document's id when the upsert
  inserted, the number of modified documents (0 or 1) when it matched.
\<close>

datatype upsert_result = Upserted object_id | Modified nat

text \<open>
  \<open>insert_article\<close>:
  \<^verbatim>\<open>update_one({"url": article.url}, {"$set": article.dict(by_alias=True)}, upsert=True)\<close>.
  The \<open>$set\<close> document holds every field of the article, \<open>_id\<close> included. When a stored
  document has the URL, MongoDB applies the \<open>$set\<close> to the first such document; a \<open>$set\<close>
  that would change its \<open>_id\<close> is rejected (WriteError: \<open>_id\<close> is immutable) and nothing
  is written. When none has the URL, the article is inserted as a new document, which is
  rejected (DuplicateKeyError) when its \<open>_id\<close> is already taken. The \<open>except\<close> clause
  logs and raises again, so an error leaves the function as \<open>Inl\<close>.
\<close>

definition insert_article :: "database \<Rightarrow> article \<Rightarrow> error + (upsert_result \<times> database)" where
  "insert_article d a =
     (case find (\<lambda>x. url x = url a) (articles d) of
        Some x \<Rightarrow>
          if oid x \<noteq> oid a then Inl WriteError
          else Inr (Modified (if x = a then 0 else 1),
                    d\<lparr>articles := update_first (\<lambda>x. url x = url a) (\<lambda>_. a) (articles d)\<rparr>)
      | None \<Rightarrow>
          if oid a \<in> set (map oid (articles d)) then Inl DuplicateKeyError
          else Inr (Upserted (oid a), d\<lparr>articles := articles d @ [a]\<rparr>))"

text \<open>\<open>find_one({"_id": article_id})\<close>\<close>

definition get_article :: "database \<Rightarrow> object_id \<Rightarrow> article option" where
  "get_article d i = find (\<lambda>a. oid a = i) (articles d)"

text \<open>\<open>find_one({"faiss_id": faiss_id})\<close>\<close>

definition get_chunk_by_faiss_id :: "database \<Rightarrow> int \<Rightarrow> chunk option" where
  "get_chunk_by_faiss_id d f = find (\<lambda>c. faiss_id c = Some f) (chunks d)"

text \<open>\<open>find({"processed": {"$ne": True}}, limit=batch_size)\<close>\<close>

definition get_unprocessed_articles :: "database \<Rightarrow> nat \<Rightarrow> article list" where
  "get_unprocessed_articles d batch_size =
     take batch_size (filter (\<lambda>a. processed a \<noteq> Some True) (articles d))"

text \<open>\<open>update_one({"_id": article_id}, {"$set": {"processed": True}})\<close>\<close>

definition mark_article_processed :: "database \<Rightarrow> object_id \<Rightarrow> database" where
  "mark_article_processed d i =
     d\<lparr>articles := update_first (\<lambda>a. oid a = i) (\<lambda>a. a\<lparr>processed := Some True\<rparr>) (articles d)\<rparr>"

text \<open>
  \<open>insert_many\<close> (ordered): the documents are written one by one, and the first whose
  \<open>_id\<close> is already in the collection raises; what was written before it stays.
\<close>

fun insert_many :: "chunk list \<Rightarrow> chunk list \<Rightarrow> error option \<times> chunk list" where
  "insert_many coll [] = (None, coll)"
| "insert_many coll (c # cs) =
     (if chunk_oid c \<in> set (map chunk_oid coll) then (Some DuplicateKeyError, coll)
      else insert_many (coll @ [c]) cs)"

definition insert_chunks :: "database \<Rightarrow> chunk list \<Rightarrow> error option \<times> database" where
  "insert_chunks d cs =
     (if cs = [] then (None, d)
      else case insert_many (chunks d) cs of (e, coll) \<Rightarrow> (e, d\<lparr>chunks := coll\<rparr>))"

section \<open>Chunking (DocumentProcessor._create_chunks)\<close>

text \<open>
  \<open>str.split()\<close>: the maximal runs of non-whitespace characters, in order. The
  whitespace characters are the ASCII ones that \<open>str.isspace\<close> accepts.
\<close>

definition is_space :: "char \<Rightarrow> bool" where
  "is_space c = (c \<in> set [CHR '' '', CHR 0x09, CHR 0x0A, CHR 0x0B, CHR 0x0C, CHR 0x0D,
                            CHR 0x1C, CHR 0x1D, CHR 0x1E, CHR 0x1F])"

fun split_acc :: "string \<Rightarrow> string \<Rightarrow> string list" where
  "split_acc [] cur = (if cur = [] then [] else [cur])"
| "split_acc (c # cs) cur =
     (if is_space c then (if cur = [] then split_acc cs [] else cur # split_acc cs [])
      else split_acc cs (cur @ [c]))"

definition str_split :: "string \<Rightarrow> string list" where
  "str_split s = split_acc s []"

text \<open>\<open>' '.join(words)\<close>\<close>

fun join :: "string list \<Rightarrow> string" where
  "join [] = []"
| "join [w] = w"
| "join (w # ws) = w @ '' '' @ join ws"

text \<open>
  \<open>range(0, n, step)\<close>: \<open>ValueError\<close> for a zero step, empty for a negative one, and
  \<open>0, step, 2 * step, ...\<close> below \<open>n\<close> otherwise.
\<close>

function range_from :: "nat \<Rightarrow> nat \<Rightarrow> nat \<Rightarrow> nat list" where
  "range_from i n s = (if s = 0 \<or> n \<le> i then [] else i # range_from (i + s) n s)"
  by pat_completeness auto
termination
  by (relation "measure (\<lambda>(i, n, s). n - i)") auto

declare range_from.simps [simp del]

definition range0 :: "nat \<Rightarrow> int \<Rightarrow> error + nat list" where
  "range0 n step =
     (if step = 0 then Inl ValueError
      else if step < 0 then Inr []
      else Inr (range_from 0 n (nat step)))"

text \<open>The dictionaries \<open>{'text': ..., 'index': ...}\<close> that \<open>_create_chunks\<close> returns.\<close>

record chunk_dict =
  dict_text :: string
  dict_index :: nat

text \<open>
  The loop body, for the start positions still to come: the window is the slice
  \<open>words[i:i + CHUNK_SIZE]\<close>, the ordinal is \<open>len(chunks)\<close>.
\<close>

fun chunk_loop :: "string list \<Rightarrow> nat \<Rightarrow> nat list \<Rightarrow> chunk_dict list \<Rightarrow> chunk_dict list" where
  "chunk_loop words w [] acc = acc"
| "chunk_loop words w (i # rest) acc =
     chunk_loop words w rest
       (acc @ [\<lparr>dict_text = join (take w (drop i words)), dict_index = length acc\<rparr>])"

text \<open>\<open>_create_chunks\<close> with the window and the overlap as parameters.\<close>

definition create_chunks_with :: "nat \<Rightarrow> nat \<Rightarrow> string \<Rightarrow> error + chunk_dict list" where
  "create_chunks_with w ov txt =
     (let words = str_split txt in
      case range0 (length words) (int w - int ov) of
        Inl e \<Rightarrow> Inl e
      | Inr starts \<Rightarrow> Inr (chunk_loop words w starts []))"

definition create_chunks :: "string \<Rightarrow> error + chunk_dict list" where
  "create_chunks txt = create_chunks_with CHUNK_SIZE CHUNK_OVERLAP txt"

section \<open>Services and their state\<close>

text \<open>
  What every service object holds: the database handle \<open>self.db\<close>, the ObjectId factory
  (the next identifier it hands out) and the wall clock in seconds, which only
  \<open>asyncio.sleep\<close> advances here. \<open>vstore\<close> adds the in-memory FAISS index
  (\<open>IndexFlatL2\<close>: the vectors in insertion order, \<open>ntotal\<close> its length); the processor adds
  the index file on disk, the retriever is a \<open>vstore\<close>.
\<close>

record service =
  db :: database
  next_oid :: object_id
  clock :: nat

record vstore = service +
  index :: "vector list"

record processor = vstore +
  index_file :: "vector list option"

section \<open>The indexing coordinator (src/processing/processor.py)\<close>

text \<open>
  The list comprehension that builds the \<open>Chunk\<close> objects of one article: each gets a new
  \<open>_id\<close>, the text and ordinal of its dictionary, the article's id, and no \<open>faiss_id\<close>.
\<close>

fun make_chunks :: "object_id \<Rightarrow> object_id \<Rightarrow> chunk_dict list \<Rightarrow> chunk list" where
  "make_chunks a n [] = []"
| "make_chunks a n (c # cs) =
     \<lparr>chunk_oid = n, chunk_text = dict_text c, chunk_index = dict_index c,
      article_id = a, faiss_id = None\<rparr> # make_chunks a (Suc n) cs"

text \<open>
  An entry of \<open>article_ids\<close>: an ObjectId, a dictionary with an \<open>_id\<close> key, or anything that
  \<open>ObjectId(str(aid))\<close> rejects.
\<close>

datatype id_arg = Oid object_id | DictId object_id | Malformed

fun to_object_id :: "id_arg \<Rightarrow> error + object_id" where
  "to_object_id (Oid i) = Inr i"
| "to_object_id (DictId i) = Inr i"
| "to_object_id Malformed = Inl InvalidId"

text \<open>The first loop of \<open>process_articles\<close>: the articles found for the given ids.\<close>

fun lookup_articles :: "database \<Rightarrow> id_arg list \<Rightarrow> article list \<Rightarrow> error + article list" where
  "lookup_articles d [] found = Inr found"
| "lookup_articles d (aid # rest) found =
     (case to_object_id aid of
        Inl e \<Rightarrow> Inl e
      | Inr i \<Rightarrow>
          (case get_article d i of
             None \<Rightarrow> lookup_articles d rest found
           | Some a \<Rightarrow> lookup_articles d rest (found @ [a])))"

text \<open>
  The second loop: chunk the article, build its \<open>Chunk\<close> objects, extend \<open>all_chunks\<close>,
  mark the article processed. (An \<open>Article\<close> object is always truthy, so the
  \<open>if not article: continue\<close> never fires.)
\<close>

fun process_loop :: "article list \<Rightarrow> chunk list \<Rightarrow> processor \<Rightarrow> error + (chunk list \<times> processor)" where
  "process_loop [] all_chunks p = Inr (all_chunks, p)"
| "process_loop (a # rest) all_chunks p =
     (case create_chunks (content a) of
        Inl e \<Rightarrow> Inl e
      | Inr cs \<Rightarrow>
          process_loop rest (all_chunks @ make_chunks (oid a) (next_oid p) cs)
            (p\<lparr>next_oid := next_oid p + length cs,
               db := mark_article_processed (db p) (oid a)\<rparr>))"

text \<open>
  The documents \<open>process_articles\<close> selects: those found for the given ids, or, without
  ids (\<open>None\<close> or an empty list), a batch of at most 100 unprocessed ones.
\<close>

definition select_articles :: "processor \<Rightarrow> id_arg list option \<Rightarrow> error + article list" where
  "select_articles p article_ids =
     (case article_ids of
        None \<Rightarrow> Inr (get_unprocessed_articles (db p) 100)
      | Some ids \<Rightarrow>
          if ids = [] then Inr (get_unprocessed_articles (db p) 100)
          else lookup_articles (db p) ids [])"

definition process_articles :: "processor \<Rightarrow> id_arg list option \<Rightarrow> error + (chunk list \<times> processor)" where
  "process_articles p article_ids =
     (case select_articles p article_ids of
        Inl e \<Rightarrow> Inl e
      | Inr arts \<Rightarrow> process_loop arts [] p)"

text \<open>\<open>for chunk, faiss_id in zip(chunks, faiss_ids): chunk.faiss_id = faiss_id\<close>\<close>

fun assign_faiss_ids :: "chunk list \<Rightarrow> nat list \<Rightarrow> chunk list" where
  "assign_faiss_ids [] ids = []"
| "assign_faiss_ids (c # cs) [] = c # cs"
| "assign_faiss_ids (c # cs) (i # ids) = c\<lparr>faiss_id := Some (int i)\<rparr> # assign_faiss_ids cs ids"

text \<open>
  \<open>index_chunks\<close>, with the embedding model's \<open>encode\<close> as a parameter. The result is the
  exception raised, if any, the chunk objects as the call leaves them, and the processor.
  The batch holds distinct \<open>Chunk\<close> objects, as \<open>process_articles\<close> builds them.
\<close>

definition index_chunks ::
  "(string list \<Rightarrow> vector list) \<Rightarrow> processor \<Rightarrow> chunk list \<Rightarrow> error option \<times> chunk list \<times> processor" where
  "index_chunks encode p cs =
     (if cs = [] then (None, cs, p)
      else
        let texts = map chunk_text cs;
            embeddings = encode texts;
            ntotal = length (index p);
            faiss_ids = [ntotal ..< ntotal + length embeddings];
            p1 = p\<lparr>index := index p @ embeddings\<rparr>;
            cs' = assign_faiss_ids cs faiss_ids
        in case insert_chunks (db p1) cs' of
             (Some e, d) \<Rightarrow> (Some e, cs', p1\<lparr>db := d\<rparr>)
           | (None, d) \<Rightarrow> (None, cs', p1\<lparr>db := d, index_file := Some (index p1)\<rparr>))"

section \<open>The retriever (src/retrieval/retriever.py)\<close>

text \<open>\<open>score = 1 / (1 + distance)\<close>, on the distances as real numbers.\<close>

definition score_of_distance :: "real \<Rightarrow> real" where
  "score_of_distance distance = 1 / (1 + distance)"

text \<open>
  One entry of the result list. \<open>article_date\<close> is the publication date that the source
  formats with \<open>strftime\<close>.
\<close>

record search_result =
  result_text :: string
  article_title :: string
  article_date :: datetime
  article_url :: string
  result_source :: string
  score :: real
  rank :: nat

text \<open>
  The loop over \<open>enumerate(zip(D[0], I[0]))\<close>, for the hits still to come: \<open>i\<close> is the
  position of the next hit in the list the index returned. \<open>sources\<close> filters only when it
  is a non-empty list. \<open>article.date_published.strftime\<close> raises \<open>AttributeError\<close> on an
  article without a publication date.
\<close>

fun search_loop ::
  "database \<Rightarrow> string list option \<Rightarrow> nat \<Rightarrow> (real \<times> int) list \<Rightarrow> search_result list \<Rightarrow>
   error + search_result list" where
  "search_loop d sources i [] results = Inr results"
| "search_loop d sources i ((distance, fid) # hits) results =
     (case get_chunk_by_faiss_id d fid of
        None \<Rightarrow> search_loop d sources (i + 1) hits results
      | Some c \<Rightarrow>
          (case get_article d (article_id c) of
             None \<Rightarrow> search_loop d sources (i + 1) hits results
           | Some a \<Rightarrow>
               if (case sources of None \<Rightarrow> False | Some ss \<Rightarrow> ss \<noteq> [] \<and> source a \<notin> set ss)
               then search_loop d sources (i + 1) hits results
               else
                 (case date_published a of
                    None \<Rightarrow> Inl AttributeError
                  | Some dt \<Rightarrow>
                      search_loop d sources (i + 1) hits
                        (results @
                         [\<lparr>result_text = chunk_text c, article_title = title a,
                           article_date = dt, article_url = url a, result_source = source a,
                           score = score_of_distance distance, rank = i + 1\<rparr>]))))"

text \<open>
  \<open>search\<close>, with the embedding model's \<open>encode\<close> and the FAISS index's \<open>search\<close> as
  parameters: \<open>index_search vectors q k\<close> is the list \<open>zip(D[0], I[0])\<close> of (distance, id)
  pairs.
\<close>

definition search ::
  "(string \<Rightarrow> vector) \<Rightarrow> (vector list \<Rightarrow> vector \<Rightarrow> nat \<Rightarrow> (real \<times> int) list) \<Rightarrow>
   vstore \<Rightarrow> string \<Rightarrow> nat \<Rightarrow> string list option \<Rightarrow> error + search_result list" where
  "search encode index_search r query k sources =
     search_loop (db r) sources 0 (index_search (index r) (encode query) k) []"

text \<open>
  The body of that loop for the hit at position \<open>i\<close>, on its own: the hit is dropped
  (\<open>continue\<close>), the body raises, or it appends a result.
\<close>

definition hit_result ::
  "database \<Rightarrow> string list option \<Rightarrow> nat \<Rightarrow> real \<times> int \<Rightarrow> (error + search_result) option" where
  "hit_result d sources i h =
     (case get_chunk_by_faiss_id d (snd h) of
        None \<Rightarrow> None
      | Some c \<Rightarrow>
          (case get_article d (article_id c) of
             None \<Rightarrow> None
           | Some a \<Rightarrow>
               if (case sources of None \<Rightarrow> False | Some ss \<Rightarrow> ss \<noteq> [] \<and> source a \<notin> set ss)
               then None
               else
                 (case date_published a of
                    None \<Rightarrow> Some (Inl AttributeError)
                  | Some dt \<Rightarrow>
                      Some (Inr \<lparr>result_text = chunk_text c, article_title = title a,
                                 article_date = dt, article_url = url a,
                                 result_source = source a,
                                 score = score_of_distance (fst h), rank = i + 1\<rparr>))))"

section \<open>The crawler (src/scraping/scraper.py, \<open>BaseScraper\<close>)\<close>

text \<open>
  The \<open>article_data\<close> dictionary that \<open>scrape_article\<close> returns (the key \<open>scraped_at\<close>
  is never read).
\<close>

record article_data =
  data_url :: string
  data_title :: string
  data_date :: string
  data_content :: string
  data_source :: string

text \<open>
  One HTTP request: \<open>session.get\<close> (or reading the body) raises, or a response arrives
  with a status and a body.
\<close>

datatype response = Raises | Status nat string

text \<open>
  What a crawl session meets outside the scraper: the network (\<open>http_get url attempt\<close> is
  the outcome of the given attempt to fetch the URL), the two abstract methods of the
  subclass, and \<open>datetime.strptime(_, '%Y-%m-%d')\<close>, \<open>None\<close> where it raises.
\<close>

record site =
  http_get :: "string \<Rightarrow> nat \<Rightarrow> response"
  parse_article_links :: "string \<Rightarrow> string list"
  scrape_article :: "database \<Rightarrow> string \<Rightarrow> article_data option"
  strptime :: "string \<Rightarrow> datetime option"

text \<open>The attributes \<open>__init__\<close> sets, on top of the service state.\<close>

record scraper = service +
  base_url :: string
  max_articles :: "int option"
  new_articles_found :: nat
  max_pages_without_new :: nat
  pages_without_new :: nat

definition init_scraper :: "service \<Rightarrow> string \<Rightarrow> int option \<Rightarrow> scraper" where
  "init_scraper sv b m =
     \<lparr>db = db sv, next_oid = next_oid sv, clock = clock sv,
      base_url = b, max_articles = m, new_articles_found = 0,
      max_pages_without_new = 10, pages_without_new = 0\<rparr>"

text \<open>
  The budget check \<open>self.max_articles and self.new_articles_found >= self.max_articles\<close>:
  \<open>None\<close> and \<open>0\<close> are falsy.
\<close>

definition cap_reached :: "scraper \<Rightarrow> bool" where
  "cap_reached s =
     (case max_articles s of
        None \<Rightarrow> False
      | Some m \<Rightarrow> m \<noteq> 0 \<and> m \<le> int (new_articles_found s))"

text \<open>
  \<open>_save_article\<close>. Every exception inside it (a date that does not parse, a rejected
  write) is caught and turns into \<open>False\<close>.
\<close>

definition save_article :: "site \<Rightarrow> scraper \<Rightarrow> article_data \<Rightarrow> bool \<times> scraper" where
  "save_article env s ad =
     (if cap_reached s then (False, s)
      else if article_exists (db s) (data_url ad) then (False, s)
      else
        (case strptime env (data_date ad) of
           None \<Rightarrow> (False, s)
         | Some dt \<Rightarrow>
             let a = \<lparr>oid = next_oid s, title = data_title ad, content = data_content ad,
                      url = data_url ad, source = data_source ad, date_published = Some dt,
                      processed = Some False, date_ingested = clock s\<rparr>;
                 s1 = s\<lparr>next_oid := next_oid s + 1\<rparr>
             in (case insert_article (db s1) a of
                   Inl e \<Rightarrow> (False, s1)
                 | Inr (r, d) \<Rightarrow>
                     (True, s1\<lparr>db := d, new_articles_found := new_articles_found s1 + 1\<rparr>))))"

text \<open>\<open>str(page)\<close> for a page number.\<close>

function str_nat :: "nat \<Rightarrow> string" where
  "str_nat n =
     (if n < 10 then [char_of (48 + n)]
      else str_nat (n div 10) @ [char_of (48 + n mod 10)])"
  by pat_completeness auto
termination
  by (relation "measure (\<lambda>n. n)") auto

declare str_nat.simps [simp del]

definition get_page_url :: "scraper \<Rightarrow> nat \<Rightarrow> string" where
  "get_page_url s page_no =
     (if page_no = 0 then base_url s else base_url s @ ''?page='' @ str_nat page_no)"

text \<open>
  \<open>fetch_page\<close>: the loop \<open>for attempt in range(max_retries)\<close>, for the attempts still to
  come. The result is the page, the number of requests sent and the seconds slept.
\<close>

record fetch_result =
  body :: "string option"
  requests :: nat
  slept :: nat

fun fetch_loop :: "(nat \<Rightarrow> response) \<Rightarrow> nat \<Rightarrow> nat list \<Rightarrow> fetch_result" where
  "fetch_loop get max_retries [] = \<lparr>body = None, requests = 0, slept = 0\<rparr>"
| "fetch_loop get max_retries (attempt # rest) =
     (case get attempt of
        Status code txt \<Rightarrow>
          \<lparr>body = (if code = 200 then Some txt else None), requests = 1, slept = 0\<rparr>
      | Raises \<Rightarrow>
          if attempt = max_retries - 1 then \<lparr>body = None, requests = 1, slept = 0\<rparr>
          else
            (let r = fetch_loop get max_retries rest
             in r\<lparr>requests := requests r + 1, slept := slept r + 1\<rparr>))"

definition fetch_page :: "(nat \<Rightarrow> response) \<Rightarrow> fetch_result" where
  "fetch_page get = fetch_loop get 3 [0..<3]"

text \<open>
  The local variables of \<open>scrape_all_articles\<close>, with the scraper object itself.
\<close>

record crawl =
  self :: scraper
  page :: nat
  new_articles :: nat
  consecutive_empty_pages :: nat

definition max_empty_pages :: nat where
  "max_empty_pages = 5"

definition sleep :: "nat \<Rightarrow> crawl \<Rightarrow> crawl" where
  "sleep n c = c\<lparr>self := (self c)\<lparr>clock := clock (self c) + n\<rparr>\<rparr>"

text \<open>
  The inner loop \<open>for url in article_links\<close>, for the links still to come, with the
  running count \<open>page_new_articles\<close>.
\<close>

fun process_links :: "site \<Rightarrow> string list \<Rightarrow> crawl \<Rightarrow> nat \<Rightarrow> crawl \<times> nat" where
  "process_links env [] c page_new = (c, page_new)"
| "process_links env (u # rest) c page_new =
     (if cap_reached (self c) then (c, page_new)
      else if article_exists (db (self c)) u then process_links env rest c page_new
      else
        (case scrape_article env (db (self c)) u of
           None \<Rightarrow> process_links env rest (sleep SCRAPE_DELAY c) page_new
         | Some ad \<Rightarrow>
             (case save_article env (self c) ad of
                (True, s) \<Rightarrow>
                  process_links env rest
                    (sleep SCRAPE_DELAY (c\<lparr>self := s, new_articles := new_articles c + 1\<rparr>))
                    (page_new + 1)
              | (False, s) \<Rightarrow>
                  process_links env rest (sleep SCRAPE_DELAY (c\<lparr>self := s\<rparr>)) page_new)))"

text \<open>One pass through the body of \<open>while True\<close>: the loop ends (\<open>Break\<close>) or goes on.\<close>

datatype step = Break crawl | Next crawl

definition page_step :: "site \<Rightarrow> crawl \<Rightarrow> step" where
  "page_step env c =
     (if cap_reached (self c) then Break c
      else
        let fetched = fetch_page (http_get env (get_page_url (self c) (page c)));
            c0 = sleep (slept fetched) c
        in case body fetched of
             None \<Rightarrow> Break c0
           | Some html \<Rightarrow>
               if html = [] then Break c0
               else
                 let article_links = parse_article_links env html;
                     c1 = (if article_links = []
                           then c0\<lparr>consecutive_empty_pages := consecutive_empty_pages c0 + 1\<rparr>
                           else c0)
                 in if article_links = [] \<and> max_empty_pages \<le> consecutive_empty_pages c1
                    then Break c1
                    else
                      (case process_links env article_links c1 0 of
                         (c2, page_new_articles) \<Rightarrow>
                           if 0 < page_new_articles
                           then Next (sleep SCRAPE_DELAY
                                  (c2\<lparr>consecutive_empty_pages := 0, page := page c2 + 1\<rparr>))
                           else
                             let c3 = c2\<lparr>consecutive_empty_pages := consecutive_empty_pages c2 + 1\<rparr>
                             in if max_empty_pages \<le> consecutive_empty_pages c3 then Break c3
                                else Next (sleep SCRAPE_DELAY (c3\<lparr>page := page c3 + 1\<rparr>))))"

text \<open>
  \<open>while True\<close> may run for ever (a site that never runs out of new articles), so the loop
  takes fuel: \<open>None\<close> is a session still running after that many pages.
\<close>

fun scrape_loop :: "site \<Rightarrow> nat \<Rightarrow> crawl \<Rightarrow> crawl option" where
  "scrape_loop env 0 c = None"
| "scrape_loop env (Suc fuel) c =
     (case page_step env c of
        Break c' \<Rightarrow> Some c'
      | Next c' \<Rightarrow> scrape_loop env fuel c')"

definition scrape_all_articles :: "site \<Rightarrow> nat \<Rightarrow> scraper \<Rightarrow> crawl option" where
  "scrape_all_articles env fuel s =
     scrape_loop env fuel
       \<lparr>self = s, page = 0, new_articles = 0, consecutive_empty_pages = 0\<rparr>"

text \<open>The session after a number of passes through the loop body, a finished one staying put.\<close>

fun after_pages :: "site \<Rightarrow> nat \<Rightarrow> step \<Rightarrow> step" where
  "after_pages env 0 st = st"
| "after_pages env (Suc n) (Break c) = Break c"
| "after_pages env (Suc n) (Next c) = after_pages env n (page_step env c)"

section \<open>Predicates on the store\<close>

text \<open>A document with the given id is stored; it is stored and marked processed.\<close>

definition present :: "database \<Rightarrow> object_id \<Rightarrow> bool" where
  "present d i = (\<exists>a \<in> set (articles d). oid a = i)"

definition marked :: "database \<Rightarrow> object_id \<Rightarrow> bool" where
  "marked d i = (\<exists>a \<in> set (articles d). oid a = i \<and> processed a = Some True)"

text \<open>No two stored documents share a URL.\<close>

definition url_unique :: "database \<Rightarrow> bool" where
  "url_unique d = distinct (map url (articles d))"

text \<open>
  A sequence of \<open>insert_article\<close> calls on one store: a call that raises leaves the store
  as it was, and the next call follows.
\<close>

fun insert_articles :: "database \<Rightarrow> article list \<Rightarrow> database" where
  "insert_articles d [] = d"
| "insert_articles d (a # rest) =
     (case insert_article d a of
        Inl e \<Rightarrow> insert_articles d rest
      | Inr (r, d') \<Rightarrow> insert_articles d' rest)"

section \<open>Results and hits\<close>

text \<open>
  The result \<open>r\<close> comes from the hit at position \<open>k\<close> (0-based) of the list the index
  returned: its score is the score of that hit's distance, and its fields are those of the
  chunk and the article that the hit's id resolves to.
\<close>

definition from_hit :: "database \<Rightarrow> (real \<times> int) list \<Rightarrow> nat \<Rightarrow> search_result \<Rightarrow> bool" where
  "from_hit d hits k r \<longleftrightarrow>
     k < length hits \<and> score r = score_of_distance (fst (hits ! k)) \<and>
     (\<exists>c a. get_chunk_by_faiss_id d (snd (hits ! k)) = Some c \<and>
             get_article d (article_id c) = Some a \<and>
             result_text r = chunk_text c \<and> article_title r = title a \<and>
             article_url r = url a \<and> result_source r = source a \<and>
             date_published a = Some (article_date r))"

section \<open>Observing a crawl session\<close>

text \<open>
  The links of the page a pass through the loop body works on: \<open>None\<close> when the pass ends
  the loop before it has a page (the budget is used up, or the fetch gave no page or an
  empty one).
\<close>

definition page_links :: "site \<Rightarrow> crawl \<Rightarrow> string list option" where
  "page_links env c =
     (if cap_reached (self c) then None
      else
        (case body (fetch_page (http_get env (get_page_url (self c) (page c)))) of
           None \<Rightarrow> None
         | Some html \<Rightarrow> if html = [] then None else Some (parse_article_links env html)))"

text \<open>The session state a pass through the loop body leaves, and whether it ended the loop.\<close>

fun step_crawl :: "step \<Rightarrow> crawl" where
  "step_crawl (Break c) = c"
| "step_crawl (Next c) = c"


text \<open>The session's variables at the start of \<open>scrape_all_articles\<close>.\<close>

definition start :: "scraper \<Rightarrow> crawl" where
  "start s = \<lparr>self = s, page = 0, new_articles = 0, consecutive_empty_pages = 0\<rparr>"

text \<open>The same session state under another \<open>max_articles\<close>.\<close>

definition with_max :: "int option \<Rightarrow> crawl \<Rightarrow> crawl" where
  "with_max m c = c\<lparr>self := (self c)\<lparr>max_articles := m\<rparr>\<rparr>"

fun step_with_max :: "int option \<Rightarrow> step \<Rightarrow> step" where
  "step_with_max m (Break c) = Break (with_max m c)"
| "step_with_max m (Next c) = Next (with_max m c)"

text \<open>The number of documents in the session's store.\<close>

definition stored_count :: "crawl \<Rightarrow> nat" where
  "stored_count c = length (articles (db (self c)))"

text \<open>
  A session under the cap \<open>m\<close> that started on a store of \<open>l\<close> documents: it has counted
  at most \<open>m\<close> new articles, and the store holds exactly that many more documents.
\<close>

definition within_cap :: "int \<Rightarrow> nat \<Rightarrow> crawl \<Rightarrow> bool" where
  "within_cap m l c \<longleftrightarrow>
     max_articles (self c) = Some m \<and> int (new_articles_found (self c)) \<le> m \<and>
     length (articles (db (self c))) = l + new_articles_found (self c)"

section \<open>Example data\<close>

text \<open>A small store, an index of ten vectors, a batch of five chunks and an encoder.\<close>

definition example_article :: "object_id \<Rightarrow> string \<Rightarrow> string \<Rightarrow> string \<Rightarrow> article" where
  "example_article i u src txt =
     \<lparr>oid = i, title = ''title'', content = txt, url = u, source = src,
      date_published = Some 0, processed = Some False, date_ingested = 0\<rparr>"

definition example_processor :: processor where
  "example_processor =
     \<lparr>db = \<lparr>articles = [example_article 1 ''u1'' ''usao'' ''a b c'',
                         example_article 2 ''u2'' ''latimes'' ''d e''],
             chunks = []\<rparr>,
      next_oid = 10, clock = 0, index = replicate 10 [0], index_file = None\<rparr>"

definition example_batch :: "chunk list" where
  "example_batch =
     map (\<lambda>n. \<lparr>chunk_oid = 20 + n, chunk_text = ''text'', chunk_index = n,
                article_id = 1, faiss_id = None\<rparr>) [0..<5]"

definition example_encode :: "string list \<Rightarrow> vector list" where
  "example_encode texts = map (\<lambda>t. [real (length t)]) texts"

text \<open>
  A store for the retriever, in which the two articles have one indexed chunk each, and an
  index that answers every query with the same two hits; the two results of a search.
\<close>

definition example_retriever :: vstore where
  "example_retriever =
     \<lparr>db = \<lparr>articles = [example_article 1 ''u1'' ''usao'' ''a b c'',
                         example_article 2 ''u2'' ''latimes'' ''d e''],
             chunks = [\<lparr>chunk_oid = 10, chunk_text = ''a b c'', chunk_index = 0,
                        article_id = 1, faiss_id = Some 0\<rparr>,
                       \<lparr>chunk_oid = 11, chunk_text = ''d e'', chunk_index = 0,
                        article_id = 2, faiss_id = Some 1\<rparr>]\<rparr>,
      next_oid = 12, clock = 0, index = [[0], [1]]\<rparr>"

definition example_query_encode :: "string \<Rightarrow> vector" where
  "example_query_encode q = [real (length q)]"

definition example_index_search :: "vector list \<Rightarrow> vector \<Rightarrow> nat \<Rightarrow> (real \<times> int) list" where
  "example_index_search vs q k = take k [(1, 0), (3, 1)]"

definition example_result_1 :: search_result where
  "example_result_1 =
     \<lparr>result_text = ''a b c'', article_title = ''title'', article_date = 0,
      article_url = ''u1'', result_source = ''usao'', score = 1 / 2, rank = 1\<rparr>"

definition example_result_2 :: search_result where
  "example_result_2 =
     \<lparr>result_text = ''d e'', article_title = ''title'', article_date = 0,
      article_url = ''u2'', result_source = ''latimes'', score = 1 / 4, rank = 2\<rparr>"

text \<open>
  A service with one stored article; a site whose first page links three new articles,
  whose second page has no links and whose further pages are missing; a site whose pages
  0 to 3 link the stored article only and whose page 4 has no links; a site that is down.
\<close>

definition example_service :: service where
  "example_service =
     \<lparr>db = \<lparr>articles = [example_article 1 ''u1'' ''usao'' ''a b c''], chunks = []\<rparr>,
      next_oid = 10, clock = 0\<rparr>"

definition example_http_get :: "string \<Rightarrow> nat \<Rightarrow> response" where
  "example_http_get u n =
     (if u = ''b'' then Status 200 ''p0''
      else if u = ''b?page=1'' then Status 200 ''p1''
      else Status 404 [])"

definition example_links :: "string \<Rightarrow> string list" where
  "example_links h = (if h = ''p0'' then [''x'', ''y'', ''z''] else [])"

definition example_scrape :: "database \<Rightarrow> string \<Rightarrow> article_data option" where
  "example_scrape d u =
     Some \<lparr>data_url = u, data_title = ''t'', data_date = ''2020-01-01'',
           data_content = ''c'', data_source = ''usao''\<rparr>"

definition example_strptime :: "string \<Rightarrow> datetime option" where
  "example_strptime s = Some 3"

definition example_site :: site where
  "example_site =
     \<lparr>http_get = example_http_get, parse_article_links = example_links,
      scrape_article = example_scrape, strptime = example_strptime\<rparr>"




definition down_http_get :: "string \<Rightarrow> nat \<Rightarrow> response" where
  "down_http_get u n = Raises"

definition example_down_site :: site where
  "example_down_site =
     \<lparr>http_get = down_http_get, parse_article_links = example_links,
      scrape_article = example_scrape, strptime = example_strptime\<rparr>"

text \<open>The dictionary that the example site's \<open>scrape_article\<close> returns for the link \<open>x\<close>.\<close>

definition example_data :: article_data where
  "example_data =
     \<lparr>data_url = ''x'', data_title = ''t'', data_date = ''2020-01-01'',
      data_content = ''c'', data_source = ''usao''\<rparr>"

text \<open>
  Two servers seen from \<open>fetch_page\<close>: one whose first two requests raise and whose third
  answers 200, one that answers 500 first and would answer 200 from then on.
\<close>

definition example_flaky_get :: "nat \<Rightarrow> response" where
  "example_flaky_get n = (if n < 2 then Raises else Status 200 ''page'')"

definition example_busy_get :: "nat \<Rightarrow> response" where
  "example_busy_get n = (if n = 0 then Status 500 ''busy'' else Status 200 ''page'')"

section \<open>The specification's formulas\<close>

text \<open>
  The specification's count of chunks for a text of \<open>n\<close> words, window \<open>w\<close> and overlap
  \<open>ov\<close>, in its own words: \<open>ceil(max(n - o, 1) / (w - o))\<close>.
\<close>

definition spec_chunk_count :: "nat \<Rightarrow> nat \<Rightarrow> nat \<Rightarrow> int" where
  "spec_chunk_count n w ov =
     \<lceil>real_of_int (max (int n - int ov) 1) / real_of_int (int w - int ov)\<rceil>"

section \<open>Properties of the chunker\<close>

lemma range_from_length:
  "0 < s \<Longrightarrow> length (range_from i n s) = (n - i + s - 1) div s"
proof (induction i n s rule: range_from.induct)
  case (1 i n s)
  show ?case
  proof (cases "n \<le> i")
    case True
    with "1.prems" show ?thesis by (simp add: range_from.simps[of i])
  next
    case False
    with "1.prems" have IH: "length (range_from (i + s) n s) = (n - (i + s) + s - 1) div s"
      using "1.IH" by simp
    have e: "n - i + s - 1 = (n - Suc i) + s" using False by arith
    have "(n - i + s - 1) div s = Suc ((n - Suc i) div s)"
      unfolding e using "1.prems" by simp
    moreover have "n - (i + s) + s - 1 = n - Suc i \<or> (n \<le> i + s \<and> n - Suc i < s)"
      using False by arith
    moreover have "n \<le> i + s \<Longrightarrow> (n - (i + s) + s - 1) div s = 0" using "1.prems" by simp
    ultimately show ?thesis using IH False "1.prems"
      by (subst range_from.simps) auto
  qed
qed

lemma range_from_nth:
  "0 < s \<Longrightarrow> k < length (range_from i n s) \<Longrightarrow> range_from i n s ! k = i + k * s"
proof (induction i n s arbitrary: k rule: range_from.induct)
  case (1 i n s)
  show ?case
  proof (cases "n \<le> i")
    case True
    with "1.prems" show ?thesis by (simp add: range_from.simps[of i])
  next
    case False
    then have unf: "range_from i n s = i # range_from (i + s) n s"
      using "1.prems"(1) by (simp add: range_from.simps[of i])
    show ?thesis
    proof (cases k)
      case 0
      then show ?thesis using unf by simp
    next
      case (Suc j)
      with "1.prems" unf have "j < length (range_from (i + s) n s)" by simp
      with "1.IH" False "1.prems"(1) have "range_from (i + s) n s ! j = i + s + j * s" by simp
      then show ?thesis using unf Suc by simp
    qed
  qed
qed

lemma chunk_loop_length: "length (chunk_loop words w starts acc) = length acc + length starts"
  by (induction starts arbitrary: acc) auto

lemma chunk_loop_nth_acc: "k < length acc \<Longrightarrow> chunk_loop words w starts acc ! k = acc ! k"
  by (induction starts arbitrary: acc) (auto simp: nth_append)

lemma chunk_loop_nth_new:
  "k < length starts \<Longrightarrow>
   chunk_loop words w starts acc ! (length acc + k) =
     \<lparr>dict_text = join (take w (drop (starts ! k) words)), dict_index = length acc + k\<rparr>"
proof (induction starts arbitrary: acc k)
  case Nil
  then show ?case by simp
next
  case (Cons i rest)
  show ?case
  proof (cases k)
    case 0
    then show ?thesis by (simp add: chunk_loop_nth_acc)
  next
    case (Suc j)
    with Cons.prems have "j < length rest" by simp
    from Cons.IH[OF this, of "acc @ [\<lparr>dict_text = join (take w (drop i words)), dict_index = length acc\<rparr>]"]
    show ?thesis using Suc by simp
  qed
qed

lemma ceil_div_nat:
  assumes "0 < s"
  shows "\<lceil>real n / real s\<rceil> = int ((n + s - 1) div s)"
proof (rule ceiling_unique)
  let ?q = "(n + s - 1) div s"
  have a: "s * ?q \<le> n + s - 1" by simp
  have b: "n + s - 1 < s * ?q + s"
    using assms by (metis add.commute dividend_less_times_div mult.commute)
  from b assms have "n \<le> s * ?q" by arith
  then have "real n \<le> real s * real ?q" by (metis of_nat_le_iff of_nat_mult)
  then show "real n / real s \<le> of_int (int ?q)" using assms by (simp add: field_simps)
  from a assms have "s * ?q < n + s" by arith
  then have "real s * real ?q < real n + real s" by (metis of_nat_less_iff of_nat_mult of_nat_add)
  then show "of_int (int ?q) - 1 < real n / real s" using assms by (simp add: field_simps)
qed

lemma create_chunks_with_eq:
  assumes "ov < w"
  shows "create_chunks_with w ov txt =
     Inr (chunk_loop (str_split txt) w (range_from 0 (length (str_split txt)) (w - ov)) [])"
proof -
  have "nat (int w - int ov) = w - ov" by arith
  with assms show ?thesis
    by (simp add: create_chunks_with_def range0_def Let_def)
qed

lemma window_covers:
  fixes s w j n :: nat
  assumes "0 < s" "s \<le> w" "j < n"
  shows "j div s < (n + s - 1) div s \<and> (j div s) * s \<le> j \<and> j < (j div s) * s + w"
proof -
  from assms have e: "n + s - 1 = (n - 1) + s" by arith
  have "(n + s - 1) div s = Suc ((n - 1) div s)" unfolding e using assms(1) by simp
  moreover have "j div s \<le> (n - 1) div s" using assms(3) by (intro div_le_mono) arith
  moreover have "j < (j div s) * s + s"
    using dividend_less_times_div[OF assms(1), of j] by (simp add: ac_simps)
  ultimately show ?thesis using assms(2) by simp
qed

text \<open>
  C3 (amended). For a text of \<open>n\<close> words, a window \<open>w\<close> and an overlap \<open>ov < w\<close>,
  \<open>_create_chunks\<close> raises nothing and returns exactly \<open>ceil(n / (w - ov))\<close> chunks (none
  for a text without words); their ordinals are \<open>0, 1, ..., count - 1\<close> in order; chunk
  \<open>k\<close> is the window of at most \<open>w\<close> words that starts at word \<open>k * (w - ov)\<close>; and every
  word position lies in one of these windows, so the windows leave no gap.
  \<open>_create_chunks\<close> itself is the case \<open>w = CHUNK_SIZE\<close>, \<open>ov = CHUNK_OVERLAP\<close>, which
  meets \<open>ov < w\<close>.
\<close>

theorem create_chunks_count_ordinals_cover:
  assumes "ov < w"
  shows "\<exists>cs. create_chunks_with w ov txt = Inr cs \<and>
           int (length cs) = \<lceil>real (length (str_split txt)) / real (w - ov)\<rceil> \<and>
           map dict_index cs = [0..<length cs] \<and>
           (\<forall>k<length cs.
              dict_text (cs ! k) = join (take w (drop (k * (w - ov)) (str_split txt)))) \<and>
           (\<forall>j<length (str_split txt).
              \<exists>k<length cs. k * (w - ov) \<le> j \<and> j < k * (w - ov) + w) \<and>
           create_chunks txt = create_chunks_with CHUNK_SIZE CHUNK_OVERLAP txt \<and>
           CHUNK_OVERLAP < CHUNK_SIZE"
proof -
  let ?words = "str_split txt"
  let ?s = "w - ov"
  let ?starts = "range_from 0 (length ?words) ?s"
  let ?cs = "chunk_loop ?words w ?starts []"
  from assms have s: "0 < ?s" "?s \<le> w" by simp_all
  have len: "length ?cs = (length ?words + ?s - 1) div ?s"
    using range_from_length[OF s(1), of 0 "length ?words"] by (simp add: chunk_loop_length)
  have nth: "?cs ! k = \<lparr>dict_text = join (take w (drop (k * ?s) ?words)), dict_index = k\<rparr>"
    if "k < length ?cs" for k
  proof -
    from that have k: "k < length ?starts" by (simp add: chunk_loop_length)
    from chunk_loop_nth_new[OF k, of ?words w "[]"] range_from_nth[OF s(1) k]
    show ?thesis by simp
  qed
  have "create_chunks_with w ov txt = Inr ?cs" by (rule create_chunks_with_eq[OF assms])
  moreover have "int (length ?cs) = \<lceil>real (length ?words) / real ?s\<rceil>"
    using len ceil_div_nat[OF s(1), of "length ?words"] by simp
  moreover have "map dict_index ?cs = [0..<length ?cs]"
    by (rule nth_equalityI) (simp_all add: nth)
  moreover have "\<forall>k<length ?cs. dict_text (?cs ! k) = join (take w (drop (k * ?s) ?words))"
    by (simp add: nth)
  moreover have "\<forall>j<length ?words. \<exists>k<length ?cs. k * ?s \<le> j \<and> j < k * ?s + w"
  proof (intro allI impI)
    fix j assume "j < length ?words"
    from window_covers[OF s this] len
    have "j div ?s < length ?cs \<and> (j div ?s) * ?s \<le> j \<and> j < (j div ?s) * ?s + w" by simp
    then show "\<exists>k<length ?cs. k * ?s \<le> j \<and> j < k * ?s + w"
      by (intro exI[of _ "j div ?s"])
  qed
  moreover have "create_chunks txt = create_chunks_with CHUNK_SIZE CHUNK_OVERLAP txt"
    by (simp add: create_chunks_def)
  moreover have "CHUNK_OVERLAP < CHUNK_SIZE"
    by (simp add: CHUNK_SIZE_def CHUNK_OVERLAP_def)
  ultimately show ?thesis by blast
qed

lemma chunks_of_seven_words:
  "create_chunks_with 3 1 ''a b c d e f g'' =
     Inr [\<lparr>dict_text = ''a b c'', dict_index = 0\<rparr>, \<lparr>dict_text = ''c d e'', dict_index = 1\<rparr>,
          \<lparr>dict_text = ''e f g'', dict_index = 2\<rparr>, \<lparr>dict_text = ''g'', dict_index = 3\<rparr>]"
  by code_simp

text \<open>Seven words, window 3, overlap 1: four chunks, the last one a single word.\<close>

theorem create_chunks_count_ordinals_cover_witness:
  "(1::nat) < 3 \<and>
   create_chunks_with 3 1 ''a b c d e f g'' =
     Inr [\<lparr>dict_text = ''a b c'', dict_index = 0\<rparr>, \<lparr>dict_text = ''c d e'', dict_index = 1\<rparr>,
          \<lparr>dict_text = ''e f g'', dict_index = 2\<rparr>, \<lparr>dict_text = ''g'', dict_index = 3\<rparr>] \<and>
   \<lceil>real (length (str_split ''a b c d e f g'')) / real (3 - 1 :: nat)\<rceil> = 4"
proof -
  have h: "(1::nat) < 3" by simp
  from create_chunks_count_ordinals_cover[OF h, of "''a b c d e f g''"]
  obtain cs where cs: "create_chunks_with 3 1 ''a b c d e f g'' = Inr cs"
    and len: "int (length cs) =
                \<lceil>real (length (str_split ''a b c d e f g'')) / real (3 - 1 :: nat)\<rceil>"
    by blast
  from cs have "length cs = 4" unfolding chunks_of_seven_words by auto
  with len h chunks_of_seven_words show ?thesis by simp
qed

lemma chunks_of_no_words: "create_chunks [] = Inr []"
  by code_simp

lemma words_251: "length (str_split (concat (replicate 251 ''a ''))) = 251"
  by code_simp

lemma chunks_of_251_words:
  "map_sum id length (create_chunks (concat (replicate 251 ''a ''))) = Inr 2"
  by code_simp

lemma spec_count_0: "spec_chunk_count 0 CHUNK_SIZE CHUNK_OVERLAP = 1"
  by (simp add: spec_chunk_count_def CHUNK_SIZE_def CHUNK_OVERLAP_def ceiling_eq_iff)

lemma spec_count_251: "spec_chunk_count 251 CHUNK_SIZE CHUNK_OVERLAP = 1"
  by (simp add: spec_chunk_count_def CHUNK_SIZE_def CHUNK_OVERLAP_def ceiling_eq_iff)

text \<open>
  C3 as stated fails: the specification's formula gives one chunk both for the empty text
  and for a text of 251 words, where \<open>_create_chunks\<close> (window 300, overlap 50) returns
  no chunk and two chunks (the windows from words 0 and 250).
\<close>

theorem create_chunks_count_counterexample:
  "create_chunks [] = Inr [] \<and>
   spec_chunk_count 0 CHUNK_SIZE CHUNK_OVERLAP = 1 \<and>
   length (str_split (concat (replicate 251 ''a ''))) = 251 \<and>
   map_sum id length (create_chunks (concat (replicate 251 ''a ''))) = Inr 2 \<and>
   spec_chunk_count 251 CHUNK_SIZE CHUNK_OVERLAP = 1"
  using chunks_of_no_words words_251 chunks_of_251_words spec_count_0 spec_count_251
  by simp

section \<open>Properties of the similarity score\<close>



section \<open>Properties of the indexing coordinator\<close>

lemma assign_length: "length (assign_faiss_ids cs ids) = length cs"
  by (induction cs ids rule: assign_faiss_ids.induct) auto

lemma assign_nth:
  "length cs \<le> length ids \<Longrightarrow> i < length cs \<Longrightarrow>
   assign_faiss_ids cs ids ! i = (cs ! i)\<lparr>faiss_id := Some (int (ids ! i))\<rparr>"
proof (induction cs ids arbitrary: i rule: assign_faiss_ids.induct)
  case (3 c cs j ids)
  then show ?case by (cases i) auto
qed auto

lemma index_chunks_parts:
  assumes "cs \<noteq> []"
  shows "fst (snd (index_chunks encode p cs)) =
           assign_faiss_ids cs
             [length (index p) ..< length (index p) + length (encode (map chunk_text cs))]"
    and "index (snd (snd (index_chunks encode p cs))) = index p @ encode (map chunk_text cs)"
  using assms by (auto simp: index_chunks_def Let_def split: prod.splits option.splits)

text \<open>
  C1. For a non-empty batch of \<open>m\<close> chunks and an encoder that returns one vector per
  text, \<open>index_chunks\<close> on an index of \<open>t\<close> vectors leaves chunk \<open>i\<close> of the batch with
  \<open>faiss_id = t + i\<close> and otherwise unchanged: the ids are \<open>t, ..., t + m - 1\<close> in batch
  order, each used once, and the index holds \<open>t + m\<close> vectors afterwards.
\<close>

theorem index_chunks_assigns_range:
  assumes "cs \<noteq> []" and "length (encode (map chunk_text cs)) = length cs"
  shows "\<exists>e cs' p'. index_chunks encode p cs = (e, cs', p') \<and>
      length cs' = length cs \<and>
      (\<forall>i<length cs. cs' ! i = (cs ! i)\<lparr>faiss_id := Some (int (length (index p) + i))\<rparr>) \<and>
      map faiss_id cs' =
        map (\<lambda>i. Some (int i)) [length (index p) ..< length (index p) + length cs] \<and>
      distinct (map faiss_id cs') \<and>
      length (index p') = length (index p) + length cs"
proof -
  let ?t = "length (index p)"
  obtain e cs' p' where r: "index_chunks encode p cs = (e, cs', p')"
    by (cases "index_chunks encode p cs")
  from index_chunks_parts[OF assms(1), of encode p] r assms(2)
  have cs': "cs' = assign_faiss_ids cs [?t ..< ?t + length cs]"
    and ix: "index p' = index p @ encode (map chunk_text cs)" by simp_all
  have len: "length cs' = length cs" by (simp add: cs' assign_length)
  have nth: "cs' ! i = (cs ! i)\<lparr>faiss_id := Some (int (?t + i))\<rparr>" if "i < length cs" for i
    using that by (simp add: cs' assign_nth)
  have ids: "map faiss_id cs' = map (\<lambda>i. Some (int i)) [?t ..< ?t + length cs]"
    by (rule nth_equalityI) (simp_all add: len nth)
  have "distinct (map (\<lambda>i. Some (int i)) [?t ..< ?t + length cs])"
    by (simp add: distinct_map inj_on_def)
  with ids have "distinct (map faiss_id cs')" by simp
  moreover have "length (index p') = ?t + length cs" by (simp add: ix assms(2))
  ultimately show ?thesis using r len nth ids by blast
qed

text \<open>Five chunks into an index of ten vectors: the ids are 10 to 14, the size becomes 15.\<close>

theorem index_chunks_assigns_range_witness:
  "example_batch \<noteq> [] \<and>
   length (example_encode (map chunk_text example_batch)) = length example_batch \<and>
   length (index example_processor) = 10 \<and>
   map faiss_id (fst (snd (index_chunks example_encode example_processor example_batch))) =
     [Some 10, Some 11, Some 12, Some 13, Some 14] \<and>
   length (index (snd (snd (index_chunks example_encode example_processor example_batch)))) = 15"
proof -
  have h1: "example_batch \<noteq> []" by (simp add: example_batch_def)
  have h2: "length (example_encode (map chunk_text example_batch)) = length example_batch"
    by (simp add: example_encode_def)
  have t: "length (index example_processor) = 10" by (simp add: example_processor_def)
  have m: "length example_batch = 5" by (simp add: example_batch_def)
  from index_chunks_assigns_range[of example_batch example_encode example_processor, OF h1 h2]
  obtain e cs' p' where r: "index_chunks example_encode example_processor example_batch = (e, cs', p')"
    and ids: "map faiss_id cs' = map (\<lambda>i. Some (int i)) [10 ..< 10 + 5]"
    and sz: "length (index p') = 10 + 5"
    unfolding t m by blast
  have "[10 ..< 10 + 5] = [10, 11, 12, 13, 14::nat]" by (simp add: upt_rec)
  with ids have "map faiss_id cs' = [Some 10, Some 11, Some 12, Some 13, Some 14]" by simp
  with r sz h1 h2 t show ?thesis by simp
qed

lemma create_chunks_total: "\<exists>cs. create_chunks txt = Inr cs"
  by (simp add: create_chunks_def CHUNK_SIZE_def CHUNK_OVERLAP_def create_chunks_with_eq)

lemma set_update_first:
  "set (update_first P f xs) \<subseteq> set xs \<union> f ` {x \<in> set xs. P x}"
  by (induction xs) auto

lemma update_first_hits:
  "\<exists>x \<in> set xs. P x \<Longrightarrow> \<exists>x \<in> set xs. P x \<and> f x \<in> set (update_first P f xs)"
  by (induction xs) auto

lemma update_first_keeps:
  "x \<in> set xs \<Longrightarrow> x \<in> set (update_first P f xs) \<or> (P x \<and> f x \<in> set (update_first P f xs))"
  by (induction xs) auto

lemma mark_marks:
  assumes "present d i"
  shows "marked (mark_article_processed d i) i"
proof -
  from assms have "\<exists>x \<in> set (articles d). oid x = i" by (simp add: present_def)
  from update_first_hits[OF this, of "\<lambda>a. a\<lparr>processed := Some True\<rparr>"]
  obtain x where "oid x = i"
    and "x\<lparr>processed := Some True\<rparr> \<in>
           set (update_first (\<lambda>a. oid a = i) (\<lambda>a. a\<lparr>processed := Some True\<rparr>) (articles d))"
    by blast
  then show ?thesis
    unfolding marked_def mark_article_processed_def
    by (intro bexI[of _ "x\<lparr>processed := Some True\<rparr>"]) simp_all
qed

lemma mark_keeps_marked:
  assumes "marked d j"
  shows "marked (mark_article_processed d i) j"
proof -
  from assms obtain x where x: "x \<in> set (articles d)" "oid x = j" "processed x = Some True"
    by (auto simp: marked_def)
  let ?xs = "update_first (\<lambda>a. oid a = i) (\<lambda>a. a\<lparr>processed := Some True\<rparr>) (articles d)"
  from update_first_keeps[OF x(1), of "\<lambda>a. oid a = i" "\<lambda>a. a\<lparr>processed := Some True\<rparr>"]
  have "x \<in> set ?xs \<or> x\<lparr>processed := Some True\<rparr> \<in> set ?xs" by blast
  then show ?thesis
  proof
    assume "x \<in> set ?xs"
    with x show ?thesis unfolding marked_def mark_article_processed_def
      by (intro bexI[of _ x]) simp_all
  next
    assume "x\<lparr>processed := Some True\<rparr> \<in> set ?xs"
    with x show ?thesis unfolding marked_def mark_article_processed_def
      by (intro bexI[of _ "x\<lparr>processed := Some True\<rparr>"]) simp_all
  qed
qed

lemma mark_keeps_present:
  assumes "present d j"
  shows "present (mark_article_processed d i) j"
proof -
  from assms obtain x where x: "x \<in> set (articles d)" "oid x = j"
    by (auto simp: present_def)
  let ?xs = "update_first (\<lambda>a. oid a = i) (\<lambda>a. a\<lparr>processed := Some True\<rparr>) (articles d)"
  from update_first_keeps[OF x(1), of "\<lambda>a. oid a = i" "\<lambda>a. a\<lparr>processed := Some True\<rparr>"]
  have "x \<in> set ?xs \<or> x\<lparr>processed := Some True\<rparr> \<in> set ?xs" by blast
  then show ?thesis
  proof
    assume "x \<in> set ?xs"
    with x show ?thesis unfolding present_def mark_article_processed_def
      by (intro bexI[of _ x]) simp_all
  next
    assume "x\<lparr>processed := Some True\<rparr> \<in> set ?xs"
    with x show ?thesis unfolding present_def mark_article_processed_def
      by (intro bexI[of _ "x\<lparr>processed := Some True\<rparr>"]) simp_all
  qed
qed

lemma mark_chunks: "chunks (mark_article_processed d i) = chunks d"
  by (simp add: mark_article_processed_def)

lemma make_chunks_props:
  "c \<in> set (make_chunks a n cs) \<Longrightarrow> faiss_id c = None \<and> article_id c = a"
  by (induction cs arbitrary: n) auto

lemma process_loop_props:
  assumes "\<forall>a \<in> set arts. present (db p) (oid a)"
  shows "\<exists>cs p'. process_loop arts acc p = Inr (acc @ cs, p') \<and>
           (\<forall>a \<in> set arts. marked (db p') (oid a)) \<and>
           (\<forall>j. marked (db p) j \<longrightarrow> marked (db p') j) \<and>
           (\<forall>j. present (db p) j \<longrightarrow> present (db p') j) \<and>
           (\<forall>c \<in> set cs. faiss_id c = None \<and> article_id c \<in> oid ` set arts) \<and>
           index p' = index p \<and> index_file p' = index_file p \<and>
           chunks (db p') = chunks (db p)"
  using assms
proof (induction arts arbitrary: acc p)
  case Nil
  then show ?case by simp
next
  case (Cons a rest)
  obtain ds where ds: "create_chunks (content a) = Inr ds" using create_chunks_total by blast
  let ?new = "make_chunks (oid a) (next_oid p) ds"
  let ?p1 = "p\<lparr>next_oid := next_oid p + length ds, db := mark_article_processed (db p) (oid a)\<rparr>"
  have step: "process_loop (a # rest) acc p = process_loop rest (acc @ ?new) ?p1"
    by (simp add: ds)
  have pres: "\<forall>b \<in> set rest. present (db ?p1) (oid b)"
    using Cons.prems by (simp add: mark_keeps_present)
  from Cons.IH[OF pres, of "acc @ ?new"]
  obtain cs p' where r: "process_loop rest (acc @ ?new) ?p1 = Inr ((acc @ ?new) @ cs, p')"
    and m: "\<forall>b \<in> set rest. marked (db p') (oid b)"
    and km: "\<forall>j. marked (db ?p1) j \<longrightarrow> marked (db p') j"
    and kp: "\<forall>j. present (db ?p1) j \<longrightarrow> present (db p') j"
    and c: "\<forall>c \<in> set cs. faiss_id c = None \<and> article_id c \<in> oid ` set rest"
    and fr: "index p' = index ?p1" "index_file p' = index_file ?p1" "chunks (db p') = chunks (db ?p1)"
    by blast
  have "marked (db ?p1) (oid a)" using Cons.prems by (simp add: mark_marks)
  with km have ma: "marked (db p') (oid a)" by blast
  have "process_loop (a # rest) acc p = Inr (acc @ (?new @ cs), p')" using step r by simp
  moreover have "\<forall>b \<in> set (a # rest). marked (db p') (oid b)" using ma m by simp
  moreover have "\<forall>j. marked (db p) j \<longrightarrow> marked (db p') j"
    using km by (simp add: mark_keeps_marked)
  moreover have "\<forall>j. present (db p) j \<longrightarrow> present (db p') j"
    using kp by (simp add: mark_keeps_present)
  moreover have "\<forall>c \<in> set (?new @ cs). faiss_id c = None \<and> article_id c \<in> oid ` set (a # rest)"
    using c make_chunks_props[of _ "oid a" "next_oid p" ds] by auto
  moreover have "index p' = index p \<and> index_file p' = index_file p \<and> chunks (db p') = chunks (db p)"
    using fr by (simp add: mark_chunks)
  ultimately show ?case by blast
qed

lemma find_present: "find P xs = Some x \<Longrightarrow> x \<in> set xs \<and> P x"
  by (induction xs) (auto split: if_splits)

lemma lookup_articles_present:
  "lookup_articles d ids found = Inr arts \<Longrightarrow> \<forall>a \<in> set found. present d (oid a) \<Longrightarrow>
   \<forall>a \<in> set arts. present d (oid a)"
proof (induction ids arbitrary: found)
  case Nil
  then show ?case by simp
next
  case (Cons aid rest)
  show ?case
  proof (cases "to_object_id aid")
    case (Inl e)
    with Cons.prems show ?thesis by simp
  next
    case (Inr i)
    show ?thesis
    proof (cases "get_article d i")
      case None
      with Inr Cons show ?thesis by simp
    next
      case (Some a)
      then have "present d (oid a)"
        unfolding get_article_def present_def using find_present by fastforce
      with Some Inr Cons.prems Cons.IH[of "found @ [a]"] show ?thesis by simp
    qed
  qed
qed

lemma select_articles_present:
  assumes "select_articles p ids = Inr arts"
  shows "\<forall>a \<in> set arts. present (db p) (oid a)"
proof -
  have u: "\<forall>a \<in> set (get_unprocessed_articles (db p) 100). present (db p) (oid a)"
  proof
    fix a assume "a \<in> set (get_unprocessed_articles (db p) 100)"
    then have "a \<in> set (filter (\<lambda>a. processed a \<noteq> Some True) (articles (db p)))"
      unfolding get_unprocessed_articles_def by (rule in_set_takeD)
    then have "a \<in> set (articles (db p))" by simp
    then show "present (db p) (oid a)" unfolding present_def by blast
  qed
  show ?thesis
  proof (cases ids)
    case None
    with assms u show ?thesis by (simp add: select_articles_def)
  next
    case (Some l)
    show ?thesis
    proof (cases "l = []")
      case True
      with Some assms u show ?thesis by (simp add: select_articles_def)
    next
      case False
      with Some assms have "lookup_articles (db p) l [] = Inr arts" by (simp add: select_articles_def)
      from lookup_articles_present[OF this] show ?thesis by simp
    qed
  qed
qed

text \<open>
  C2. Whenever the selection of documents succeeds, \<open>process_articles\<close> returns; on its
  return every selected document is stored with its processed flag set, every returned
  chunk has no \<open>faiss_id\<close> and belongs to a document whose flag is set, and neither the
  vector index, nor the index file, nor the chunk collection has changed: embedding and
  indexing are left to \<open>index_chunks\<close>.
\<close>

theorem process_articles_marks_before_indexing:
  assumes "select_articles p ids = Inr arts"
  shows "\<exists>cs p'. process_articles p ids = Inr (cs, p') \<and>
           (\<forall>a \<in> set arts. \<exists>b \<in> set (articles (db p')). oid b = oid a \<and> processed b = Some True) \<and>
           (\<forall>c \<in> set cs. faiss_id c = None \<and>
              (\<exists>b \<in> set (articles (db p')). oid b = article_id c \<and> processed b = Some True)) \<and>
           index p' = index p \<and> index_file p' = index_file p \<and> chunks (db p') = chunks (db p)"
proof -
  from process_loop_props[OF select_articles_present[OF assms], of "[]"]
  obtain cs p' where r: "process_loop arts [] p = Inr (cs, p')"
    and m: "\<forall>a \<in> set arts. marked (db p') (oid a)"
    and c: "\<forall>c \<in> set cs. faiss_id c = None \<and> article_id c \<in> oid ` set arts"
    and fr: "index p' = index p" "index_file p' = index_file p" "chunks (db p') = chunks (db p)"
    by auto
  have "process_articles p ids = Inr (cs, p')" using assms r by (simp add: process_articles_def)
  moreover have "\<forall>a \<in> set arts. \<exists>b \<in> set (articles (db p')). oid b = oid a \<and> processed b = Some True"
    using m by (simp add: marked_def)
  moreover have "\<forall>c \<in> set cs. faiss_id c = None \<and>
              (\<exists>b \<in> set (articles (db p')). oid b = article_id c \<and> processed b = Some True)"
    using m c unfolding marked_def by fastforce
  ultimately show ?thesis using fr by blast
qed

lemma example_selection:
  "select_articles example_processor None =
     Inr [example_article 1 ''u1'' ''usao'' ''a b c'', example_article 2 ''u2'' ''latimes'' ''d e'']"
  by (simp add: select_articles_def get_unprocessed_articles_def example_processor_def
      example_article_def)

text \<open>Both documents of the example store are selected, chunked and marked.\<close>

theorem process_articles_marks_before_indexing_witness:
  "select_articles example_processor None =
     Inr [example_article 1 ''u1'' ''usao'' ''a b c'', example_article 2 ''u2'' ''latimes'' ''d e''] \<and>
   (\<exists>cs p'. process_articles example_processor None = Inr (cs, p') \<and>
      map faiss_id cs = [None, None] \<and>
      map processed (articles (db p')) = [Some True, Some True] \<and>
      index p' = replicate 10 [0])"
proof -
  from process_articles_marks_before_indexing[OF example_selection]
  obtain cs p' where r: "process_articles example_processor None = Inr (cs, p')"
    and ix: "index p' = index example_processor"
    by blast
  have ev: "map_sum id (\<lambda>(cs, p'). (map faiss_id cs, map processed (articles (db p'))))
              (process_articles example_processor None) = Inr ([None, None], [Some True, Some True])"
    by code_simp
  from ev r have "map faiss_id cs = [None, None] \<and>
      map processed (articles (db p')) = [Some True, Some True]" by simp
  moreover from ix have "index p' = replicate 10 [0]" by (simp add: example_processor_def)
  ultimately show ?thesis using r example_selection by simp
qed

section \<open>Properties of the retriever\<close>

lemma search_loop_step:
  "search_loop d src i (h # hits) acc =
     (case hit_result d src i h of
        None \<Rightarrow> search_loop d src (i + 1) hits acc
      | Some (Inl e) \<Rightarrow> Inl e
      | Some (Inr res) \<Rightarrow> search_loop d src (i + 1) hits (acc @ [res]))"
  by (cases h) (simp add: hit_result_def split: option.splits)

lemma search_loop_acc:
  "search_loop d src i hits acc = map_sum id (\<lambda>new. acc @ new) (search_loop d src i hits [])"
proof (induction hits arbitrary: i acc)
  case Nil
  then show ?case by simp
next
  case (Cons h hits)
  show ?case
  proof (cases "hit_result d src i h")
    case None
    then show ?thesis using Cons.IH[of "i + 1" acc] by (simp only: search_loop_step option.case)
  next
    case (Some x)
    show ?thesis
    proof (cases x)
      case (Inl e)
      with Some show ?thesis by (simp only: search_loop_step option.case sum.case map_sum.simps id_apply)
    next
      case (Inr res)
      have a: "search_loop d src (i + 1) hits (acc @ [res]) =
               map_sum id (\<lambda>new. (acc @ [res]) @ new) (search_loop d src (i + 1) hits [])"
        by (rule Cons.IH)
      have b: "search_loop d src (i + 1) hits ([] @ [res]) =
               map_sum id (\<lambda>new. ([] @ [res]) @ new) (search_loop d src (i + 1) hits [])"
        by (rule Cons.IH)
      have "search_loop d src i (h # hits) acc = search_loop d src (i + 1) hits (acc @ [res])"
        using Some Inr by (simp only: search_loop_step option.case sum.case)
      moreover have "search_loop d src i (h # hits) [] = search_loop d src (i + 1) hits ([] @ [res])"
        using Some Inr by (simp only: search_loop_step option.case sum.case)
      ultimately show ?thesis unfolding a b
        by (cases "search_loop d src (i + 1) hits []") simp_all
    qed
  qed
qed

lemma hit_result_kept:
  assumes "hit_result d src i h = Some (Inr res)"
  shows "rank res = i + 1 \<and> score res = score_of_distance (fst h) \<and>
         (\<exists>c a. get_chunk_by_faiss_id d (snd h) = Some c \<and> get_article d (article_id c) = Some a \<and>
                 result_text res = chunk_text c \<and> article_title res = title a \<and>
                 article_url res = url a \<and> result_source res = source a \<and>
                 date_published a = Some (article_date res))"
  using assms by (auto simp: hit_result_def split: option.splits if_splits)

lemma from_hit_Cons: "from_hit d hits k r \<Longrightarrow> from_hit d (h # hits) (Suc k) r"
  by (simp add: from_hit_def)

lemma search_loop_results:
  "search_loop d src i hits [] = Inr new \<Longrightarrow>
   sorted_wrt (\<lambda>a b. rank a < rank b) new \<and>
   (\<forall>r \<in> set new. i < rank r \<and> from_hit d hits (rank r - 1 - i) r)"
proof (induction hits arbitrary: i new)
  case Nil
  then show ?case by simp
next
  case (Cons h hits)
  show ?case
  proof (cases "hit_result d src i h")
    case None
    with Cons.prems have "search_loop d src (i + 1) hits [] = Inr new"
      by (simp only: search_loop_step option.case)
    from Cons.IH[OF this]
    have s: "sorted_wrt (\<lambda>a b. rank a < rank b) new"
      and e: "\<forall>r \<in> set new. i + 1 < rank r \<and> from_hit d hits (rank r - 1 - (i + 1)) r" by simp_all
    have "\<forall>r \<in> set new. i < rank r \<and> from_hit d (h # hits) (rank r - 1 - i) r"
    proof
      fix r assume r: "r \<in> set new"
      with e have "i + 1 < rank r" and f: "from_hit d hits (rank r - 1 - (i + 1)) r" by simp_all
      then have "rank r - 1 - i = Suc (rank r - 1 - (i + 1))" by arith
      with f \<open>i + 1 < rank r\<close> show "i < rank r \<and> from_hit d (h # hits) (rank r - 1 - i) r"
        by (simp add: from_hit_Cons)
    qed
    with s show ?thesis by simp
  next
    case (Some x)
    show ?thesis
    proof (cases x)
      case (Inl e)
      with Some Cons.prems show ?thesis by (simp only: search_loop_step option.case sum.case) simp
    next
      case (Inr res)
      with Some Cons.prems have "search_loop d src (i + 1) hits ([] @ [res]) = Inr new"
        by (simp only: search_loop_step option.case sum.case)
      then have "map_sum id (\<lambda>n. [res] @ n) (search_loop d src (i + 1) hits []) = Inr new"
        using search_loop_acc[of d src "i + 1" hits "[res]"] by simp
      then obtain new' where l: "search_loop d src (i + 1) hits [] = Inr new'" and n: "new = res # new'"
        by (cases "search_loop d src (i + 1) hits []") auto
      from Cons.IH[OF l]
      have s: "sorted_wrt (\<lambda>a b. rank a < rank b) new'"
        and e: "\<forall>r \<in> set new'. i + 1 < rank r \<and> from_hit d hits (rank r - 1 - (i + 1)) r" by simp_all
      from hit_result_kept[of d src i h res] Some Inr
      have k: "rank res = i + 1" "from_hit d (h # hits) 0 res"
        by (auto simp: from_hit_def)
      have t: "\<forall>r \<in> set new'. i < rank r \<and> from_hit d (h # hits) (rank r - 1 - i) r"
      proof
        fix r assume r: "r \<in> set new'"
        with e have "i + 1 < rank r" and f: "from_hit d hits (rank r - 1 - (i + 1)) r" by simp_all
        then have "rank r - 1 - i = Suc (rank r - 1 - (i + 1))" by arith
        with f \<open>i + 1 < rank r\<close> show "i < rank r \<and> from_hit d (h # hits) (rank r - 1 - i) r"
          by (simp add: from_hit_Cons)
      qed
      have "sorted_wrt (\<lambda>a b. rank a < rank b) (res # new')" using s e k(1) by simp
      moreover have "\<forall>r \<in> set (res # new'). i < rank r \<and> from_hit d (h # hits) (rank r - 1 - i) r"
        using t k by simp
      ultimately show ?thesis unfolding n by blast
    qed
  qed
qed

lemma hit_result_filtered:
  "hit_result d (Some ss) i h =
     (case hit_result d None i h of
        None \<Rightarrow> None
      | Some (Inl e) \<Rightarrow>
          (case hit_result d (Some ss) i h of None \<Rightarrow> None | Some y \<Rightarrow> Some (Inl e))
      | Some (Inr res) \<Rightarrow>
          if ss = [] \<or> result_source res \<in> set ss then Some (Inr res) else None)"
  by (auto simp: hit_result_def split: option.splits)

lemma search_loop_filter:
  "search_loop d None i hits [] = Inr rsU \<Longrightarrow>
   search_loop d (Some ss) i hits [] =
     Inr (filter (\<lambda>x. ss = [] \<or> result_source x \<in> set ss) rsU)"
proof (induction hits arbitrary: i rsU)
  case Nil
  then show ?case by simp
next
  case (Cons h hits)
  let ?P = "\<lambda>x. ss = [] \<or> result_source x \<in> set ss"
  show ?case
  proof (cases "hit_result d None i h")
    case None
    with Cons.prems have "search_loop d None (i + 1) hits [] = Inr rsU"
      by (simp only: search_loop_step option.case)
    from Cons.IH[OF this] have "search_loop d (Some ss) (i + 1) hits [] = Inr (filter ?P rsU)" .
    moreover have "hit_result d (Some ss) i h = None"
      using None by (subst hit_result_filtered) simp
    ultimately show ?thesis by (simp only: search_loop_step option.case)
  next
    case (Some x)
    show ?thesis
    proof (cases x)
      case (Inl e)
      with Some Cons.prems show ?thesis by (simp only: search_loop_step option.case sum.case) simp
    next
      case (Inr res)
      with Some Cons.prems have "search_loop d None (i + 1) hits ([] @ [res]) = Inr rsU"
        by (simp only: search_loop_step option.case sum.case)
      then have "map_sum id (\<lambda>n. [res] @ n) (search_loop d None (i + 1) hits []) = Inr rsU"
        using search_loop_acc[of d None "i + 1" hits "[res]"] by simp
      then obtain new' where l: "search_loop d None (i + 1) hits [] = Inr new'" and n: "rsU = res # new'"
        by (cases "search_loop d None (i + 1) hits []") auto
      from Cons.IH[OF l] have f: "search_loop d (Some ss) (i + 1) hits [] = Inr (filter ?P new')" .
      have hf: "hit_result d (Some ss) i h = (if ?P res then Some (Inr res) else None)"
        using Some Inr by (subst hit_result_filtered) simp
      show ?thesis
      proof (cases "?P res")
        case True
        with hf have "search_loop d (Some ss) i (h # hits) [] =
                      search_loop d (Some ss) (i + 1) hits ([] @ [res])"
          by (simp only: search_loop_step option.case sum.case if_True)
        also have "\<dots> = map_sum id (\<lambda>n. [res] @ n) (search_loop d (Some ss) (i + 1) hits [])"
          using search_loop_acc[of d "Some ss" "i + 1" hits "[res]"] by simp
        also have "\<dots> = Inr (res # filter ?P new')" using f by simp
        finally show ?thesis using True n by simp
      next
        case False
        with hf have "search_loop d (Some ss) i (h # hits) [] =
                      search_loop d (Some ss) (i + 1) hits []"
          by (simp only: search_loop_step option.case if_False)
        with f False n show ?thesis by simp
      qed
    qed
  qed
qed

lemma score_antimono: "0 \<le> d \<Longrightarrow> d \<le> e \<Longrightarrow> score_of_distance e \<le> score_of_distance d"
  by (simp add: score_of_distance_def field_simps)

lemma increasing_positions:
  fixes f :: "'a \<Rightarrow> nat"
  shows "sorted_wrt (\<lambda>a b. f a < f b) xs \<Longrightarrow> \<forall>x \<in> set xs. i < f x \<Longrightarrow> j < length xs \<Longrightarrow>
         i + j < f (xs ! j)"
proof (induction xs arbitrary: i j)
  case Nil
  then show ?case by simp
next
  case (Cons x xs)
  show ?case
  proof (cases j)
    case 0
    with Cons.prems show ?thesis by simp
  next
    case (Suc j')
    from Cons.prems have "sorted_wrt (\<lambda>a b. f a < f b) xs" "\<forall>y \<in> set xs. Suc i < f y"
      by auto
    from Cons.IH[OF this, of j'] Cons.prems(3) Suc show ?thesis by simp
  qed
qed

lemma search_results:
  assumes "search encode index_search r query k sources = Inr rs"
  shows "sorted_wrt (\<lambda>a b. rank a < rank b) rs"
    and "\<forall>x \<in> set rs. 0 < rank x \<and>
           from_hit (db r) (index_search (index r) (encode query) k) (rank x - 1) x"
  using search_loop_results[of "db r" sources 0 "index_search (index r) (encode query) k" rs] assms
  by (simp_all add: search_def)

text \<open>
  C4 (amended). Every result that \<open>search\<close> returns carries as \<open>rank\<close> the 1-based
  position of its hit in the list the index returned, before any hit is dropped: the
  result at position \<open>j\<close> (0-based) of the returned list comes from the hit at position
  \<open>rank - 1\<close>, its rank is at least \<open>j + 1\<close>, and ranks increase strictly along the list.
\<close>

theorem search_rank_is_raw_position:
  assumes "search encode index_search r query k sources = Inr rs"
  shows "\<forall>j<length rs.
           from_hit (db r) (index_search (index r) (encode query) k) (rank (rs ! j) - 1) (rs ! j) \<and>
           j + 1 \<le> rank (rs ! j) \<and>
           (\<forall>j'<j. rank (rs ! j') < rank (rs ! j))"
proof (intro allI impI)
  fix j assume j: "j < length rs"
  note s = search_results[OF assms]
  from s(2) j have "from_hit (db r) (index_search (index r) (encode query) k) (rank (rs ! j) - 1) (rs ! j)"
    by simp
  moreover from increasing_positions[OF s(1), of 0 j] s(2) j have "j + 1 \<le> rank (rs ! j)" by simp
  moreover have "\<forall>j'<j. rank (rs ! j') < rank (rs ! j)"
    using s(1) j by (simp add: sorted_wrt_iff_nth_less)
  ultimately show "from_hit (db r) (index_search (index r) (encode query) k) (rank (rs ! j) - 1) (rs ! j) \<and>
           j + 1 \<le> rank (rs ! j) \<and> (\<forall>j'<j. rank (rs ! j') < rank (rs ! j))" by blast
qed

lemma search_sorted:
  assumes "sorted (map fst (index_search (index r) (encode query) k))"
      and "\<forall>h \<in> set (index_search (index r) (encode query) k). 0 \<le> fst h"
      and "search encode index_search r query k sources = Inr rs"
  shows "sorted_wrt (\<lambda>a b. score b \<le> score a) rs"
proof -
  let ?hits = "index_search (index r) (encode query) k"
  note s = search_results[OF assms(3)]
  have "score b \<le> score a" if "a \<in> set rs" "b \<in> set rs" "rank a < rank b" for a b
  proof -
    from s(2) that have fa: "from_hit (db r) ?hits (rank a - 1) a"
      and fb: "from_hit (db r) ?hits (rank b - 1) b" and "0 < rank a" by simp_all
    then have le: "rank a - 1 \<le> rank b - 1" and lb: "rank b - 1 < length ?hits"
      and la: "rank a - 1 < length ?hits" using that(3) by (simp_all add: from_hit_def)
    from assms(1) le lb have "fst (?hits ! (rank a - 1)) \<le> fst (?hits ! (rank b - 1))"
      by (simp add: sorted_iff_nth_mono)
    moreover from assms(2) la have "0 \<le> fst (?hits ! (rank a - 1))" by simp
    ultimately show ?thesis using fa fb by (simp add: from_hit_def score_antimono)
  qed
  with s(1) show ?thesis by (rule_tac sorted_wrt_mono_rel[of rs "\<lambda>a b. rank a < rank b"]) auto
qed

text \<open>
  C5. When the index returns its hits by ascending, non-negative distance, every list that
  \<open>search\<close> returns is sorted by non-increasing score and keeps the hits' order (ranks
  increase); and when the unfiltered search returns, the search with a source filter
  returns exactly the unfiltered results whose source is in the filter (all of them for an
  empty filter list), a subset of the unfiltered list.
\<close>

theorem search_sorted_and_filter_subset:
  assumes "sorted (map fst (index_search (index r) (encode query) k))"
      and "\<forall>h \<in> set (index_search (index r) (encode query) k). 0 \<le> fst h"
  shows "(\<forall>sources rs. search encode index_search r query k sources = Inr rs \<longrightarrow>
            sorted_wrt (\<lambda>a b. score b \<le> score a) rs \<and> sorted_wrt (\<lambda>a b. rank a < rank b) rs) \<and>
         (\<forall>rsU ss. search encode index_search r query k None = Inr rsU \<longrightarrow>
            (\<exists>rsF. search encode index_search r query k (Some ss) = Inr rsF \<and>
                    rsF = filter (\<lambda>x. ss = [] \<or> result_source x \<in> set ss) rsU \<and>
                    set rsF \<subseteq> set rsU))"
proof (intro conjI allI impI)
  fix sources rs assume a: "search encode index_search r query k sources = Inr rs"
  from search_sorted[OF assms a] show "sorted_wrt (\<lambda>a b. score b \<le> score a) rs" .
  from search_results(1)[OF a] show "sorted_wrt (\<lambda>a b. rank a < rank b) rs" .
next
  fix rsU ss assume "search encode index_search r query k None = Inr rsU"
  then have "search encode index_search r query k (Some ss) =
             Inr (filter (\<lambda>x. ss = [] \<or> result_source x \<in> set ss) rsU)"
    unfolding search_def by (rule search_loop_filter)
  then show "\<exists>rsF. search encode index_search r query k (Some ss) = Inr rsF \<and>
                    rsF = filter (\<lambda>x. ss = [] \<or> result_source x \<in> set ss) rsU \<and>
                    set rsF \<subseteq> set rsU" by simp
qed

lemma example_hits:
  "example_index_search (index example_retriever) (example_query_encode ''q'') 2 =
     [(1, 0), (3, 1)]"
  by (simp add: example_index_search_def)

lemma example_search_unfiltered:
  "search example_query_encode example_index_search example_retriever ''q'' 2 None =
     Inr [example_result_1, example_result_2]"
  by (simp add: search_def example_index_search_def example_retriever_def example_article_def
      get_chunk_by_faiss_id_def get_article_def score_of_distance_def
      example_result_1_def example_result_2_def)

lemma example_search_filtered:
  "search example_query_encode example_index_search example_retriever ''q'' 2
     (Some [''latimes'']) = Inr [example_result_2]"
  by (simp add: search_def example_index_search_def example_retriever_def example_article_def
      get_chunk_by_faiss_id_def get_article_def score_of_distance_def example_result_2_def)

text \<open>
  The example search filtered to one source returns one result, which comes from the
  second hit (position 1) and has rank 2.
\<close>

theorem search_rank_is_raw_position_witness:
  "search example_query_encode example_index_search example_retriever ''q'' 2
     (Some [''latimes'']) = Inr [example_result_2] \<and>
   from_hit (db example_retriever) [(1, 0), (3, 1)] 1 example_result_2 \<and>
   rank example_result_2 = 2"
proof -
  from search_rank_is_raw_position[OF example_search_filtered]
  have "from_hit (db example_retriever)
          (example_index_search (index example_retriever) (example_query_encode ''q'') 2)
          (rank ([example_result_2] ! 0) - 1) ([example_result_2] ! 0)"
    by simp
  moreover have "rank example_result_2 = 2" by (simp add: example_result_2_def)
  ultimately show ?thesis using example_search_filtered example_hits by simp
qed

text \<open>
  C4 as stated fails: the only result of the filtered example search stands at position 1
  of the filtered list, and its rank is 2.
\<close>

theorem search_rank_counterexample:
  "map_sum id (map rank)
     (search example_query_encode example_index_search example_retriever ''q'' 2
        (Some [''latimes''])) = Inr [2]"
  by (simp add: example_search_filtered example_result_2_def)

text \<open>The example search, unfiltered and filtered to one source.\<close>

theorem search_sorted_and_filter_subset_witness:
  "example_index_search (index example_retriever) (example_query_encode ''q'') 2 =
     [(1, 0), (3, 1)] \<and>
   search example_query_encode example_index_search example_retriever ''q'' 2 None =
     Inr [example_result_1, example_result_2] \<and>
   search example_query_encode example_index_search example_retriever ''q'' 2
     (Some [''latimes'']) = Inr [example_result_2] \<and>
   sorted_wrt (\<lambda>a b. score b \<le> score a) [example_result_1, example_result_2] \<and>
   set [example_result_2] \<subseteq> set [example_result_1, example_result_2]"
proof -
  have h1: "sorted (map fst (example_index_search (index example_retriever)
                               (example_query_encode ''q'') 2))"
    by (simp add: example_hits)
  have h2: "\<forall>h \<in> set (example_index_search (index example_retriever)
                          (example_query_encode ''q'') 2). 0 \<le> fst h"
    by (simp add: example_hits)
  note t = search_sorted_and_filter_subset[where index_search = example_index_search
      and r = example_retriever and encode = example_query_encode and query = "''q''"
      and k = 2, OF h1 h2]
  from t example_search_unfiltered
  have "sorted_wrt (\<lambda>a b. score b \<le> score a) [example_result_1, example_result_2]"
    by blast
  moreover from t example_search_unfiltered
  obtain rsF where "search example_query_encode example_index_search example_retriever ''q'' 2
                      (Some [''latimes'']) = Inr rsF"
    and "set rsF \<subseteq> set [example_result_1, example_result_2]"
    by blast
  then have "set [example_result_2] \<subseteq> set [example_result_1, example_result_2]"
    using example_search_filtered by simp
  ultimately show ?thesis
    using example_hits example_search_unfiltered example_search_filtered by blast
qed

section \<open>Properties of the crawler\<close>

lemma scrape_all_articles_start: "scrape_all_articles env fuel s = scrape_loop env fuel (start s)"
  by (simp add: scrape_all_articles_def start_def)

lemma fetch_page_cases:
  "fetch_page get =
     (case get 0 of
        Status code txt \<Rightarrow>
          \<lparr>body = (if code = 200 then Some txt else None), requests = 1, slept = 0\<rparr>
      | Raises \<Rightarrow>
          (case get 1 of
             Status code txt \<Rightarrow>
               \<lparr>body = (if code = 200 then Some txt else None), requests = 2, slept = 1\<rparr>
           | Raises \<Rightarrow>
               (case get 2 of
                  Status code txt \<Rightarrow>
                    \<lparr>body = (if code = 200 then Some txt else None), requests = 3, slept = 2\<rparr>
                | Raises \<Rightarrow> \<lparr>body = None, requests = 3, slept = 2\<rparr>)))"
proof -
  have "[0..<3] = [0, 1, 2::nat]" by (simp add: upt_rec)
  then show ?thesis
    by (simp add: fetch_page_def Let_def split: response.splits)
qed

text \<open>
  C8 (amended). \<open>fetch_page\<close> sends between one and three requests and sleeps one second
  between two of them; every request before the last one raised; the page is returned
  exactly when the last request got status 200, and it is that response's body; a last
  request that raised was the third. So only a request that raises is tried again, and the
  first response ends the call whatever its status. A session whose page fetch returns no
  page stops in that pass of the loop, on the same page and with nothing saved.
\<close>

theorem fetch_page_retries_raises_only:
  "1 \<le> requests (fetch_page get) \<and> requests (fetch_page get) \<le> 3 \<and>
   slept (fetch_page get) = requests (fetch_page get) - 1 \<and>
   (\<forall>n < requests (fetch_page get) - 1. get n = Raises) \<and>
   (\<forall>txt. body (fetch_page get) = Some txt \<longleftrightarrow>
            get (requests (fetch_page get) - 1) = Status 200 txt) \<and>
   (get (requests (fetch_page get) - 1) = Raises \<longrightarrow> requests (fetch_page get) = 3) \<and>
   (\<forall>fuel. body (fetch_page (http_get env (get_page_url (self c) (page c)))) = None \<longrightarrow>
      (\<exists>c'. scrape_loop env (Suc fuel) c = Some c' \<and> page c' = page c \<and>
            db (self c') = db (self c) \<and> new_articles c' = new_articles c))"
proof -
  have a: "1 \<le> requests (fetch_page get) \<and> requests (fetch_page get) \<le> 3 \<and>
   slept (fetch_page get) = requests (fetch_page get) - 1 \<and>
   (\<forall>n < requests (fetch_page get) - 1. get n = Raises) \<and>
   (\<forall>txt. body (fetch_page get) = Some txt \<longleftrightarrow>
            get (requests (fetch_page get) - 1) = Status 200 txt) \<and>
   (get (requests (fetch_page get) - 1) = Raises \<longrightarrow> requests (fetch_page get) = 3)"
    unfolding fetch_page_cases
    by (auto split: response.splits simp: less_Suc_eq numeral_2_eq_2)
  have b: "\<exists>c'. scrape_loop env (Suc fuel) c = Some c' \<and> page c' = page c \<and>
            db (self c') = db (self c) \<and> new_articles c' = new_articles c"
    if "body (fetch_page (http_get env (get_page_url (self c) (page c)))) = None" for fuel
    using that by (simp add: page_step_def Let_def sleep_def)
  from a b show ?thesis by blast
qed

lemma not_exists_find:
  "\<not> article_exists d u \<Longrightarrow> find (\<lambda>x. url x = u) (articles d) = None"
  by (auto simp: article_exists_def find_None_iff filter_empty_conv)

lemma save_article_effect:
  assumes "save_article env s ad = (b, s')"
  shows "max_articles s' = max_articles s \<and> base_url s' = base_url s \<and>
         pages_without_new s' = pages_without_new s \<and>
         new_articles_found s' = new_articles_found s + (if b then 1 else 0) \<and>
         length (articles (db s')) = length (articles (db s)) + (if b then 1 else 0) \<and>
         (b \<longrightarrow> \<not> cap_reached s)"
  using assms
  by (auto simp: save_article_def Let_def insert_article_def not_exists_find
      split: if_splits option.splits sum.splits prod.splits)

lemma process_links_effect:
  "process_links env links c n = (c', n') \<Longrightarrow>
   consecutive_empty_pages c' = consecutive_empty_pages c \<and> page c' = page c \<and>
   new_articles c' + n = new_articles c + n' \<and> n \<le> n' \<and>
   max_articles (self c') = max_articles (self c) \<and>
   base_url (self c') = base_url (self c) \<and>
   pages_without_new (self c') = pages_without_new (self c) \<and>
   new_articles_found (self c') + n = new_articles_found (self c) + n' \<and>
   length (articles (db (self c'))) + n = length (articles (db (self c))) + n'"
proof (induction links arbitrary: c n)
  case Nil
  then show ?case by simp
next
  case (Cons u rest)
  show ?case
  proof (cases "cap_reached (self c)")
    case True
    with Cons.prems show ?thesis by simp
  next
    case nc: False
    show ?thesis
    proof (cases "article_exists (db (self c)) u")
      case True
      with nc Cons.prems have "process_links env rest c n = (c', n')" by simp
      from Cons.IH[OF this] show ?thesis .
    next
      case ne: False
      show ?thesis
      proof (cases "scrape_article env (db (self c)) u")
        case None
        with nc ne Cons.prems have "process_links env rest (sleep SCRAPE_DELAY c) n = (c', n')"
          by simp
        from Cons.IH[OF this] show ?thesis by (simp add: sleep_def)
      next
        case (Some ad)
        obtain b s where sv: "save_article env (self c) ad = (b, s)"
          by (cases "save_article env (self c) ad")
        note e = save_article_effect[OF sv]
        show ?thesis
        proof (cases b)
          case True
          with nc ne Some sv Cons.prems
          have "process_links env rest
                  (sleep SCRAPE_DELAY (c\<lparr>self := s, new_articles := new_articles c + 1\<rparr>))
                  (n + 1) = (c', n')"
            by simp
          from Cons.IH[OF this] e True show ?thesis by (simp add: sleep_def)
        next
          case False
          with nc ne Some sv Cons.prems
          have "process_links env rest (sleep SCRAPE_DELAY (c\<lparr>self := s\<rparr>)) n = (c', n')"
            by simp
          from Cons.IH[OF this] e False show ?thesis by (simp add: sleep_def)
        qed
      qed
    qed
  qed
qed

lemma page_step_fetched:
  assumes "page_links env c = Some links"
  shows "page_step env c =
     (let c0 = sleep (slept (fetch_page (http_get env (get_page_url (self c) (page c))))) c;
          c1 = (if links = []
                then c0\<lparr>consecutive_empty_pages := consecutive_empty_pages c0 + 1\<rparr> else c0)
      in if links = [] \<and> max_empty_pages \<le> consecutive_empty_pages c1 then Break c1
         else (case process_links env links c1 0 of
                 (c2, page_new_articles) \<Rightarrow>
                   if 0 < page_new_articles
                   then Next (sleep SCRAPE_DELAY
                          (c2\<lparr>consecutive_empty_pages := 0, page := page c2 + 1\<rparr>))
                   else
                     let c3 = c2\<lparr>consecutive_empty_pages := consecutive_empty_pages c2 + 1\<rparr>
                     in if max_empty_pages \<le> consecutive_empty_pages c3 then Break c3
                        else Next (sleep SCRAPE_DELAY (c3\<lparr>page := page c3 + 1\<rparr>))))"
  using assms
  by (auto simp: page_links_def page_step_def Let_def split: if_splits option.splits)

lemma page_step_no_page:
  assumes "page_links env c = None"
  shows "\<exists>n. page_step env c = Break (sleep n c)"
proof -
  have "c = sleep 0 c" by (simp add: sleep_def)
  with assms show ?thesis
    by (auto simp: page_links_def page_step_def Let_def split: if_splits option.splits)
qed


lemma cap_disabled: "max_articles s = None \<or> max_articles s = Some 0 \<Longrightarrow> \<not> cap_reached s"
  by (auto simp: cap_reached_def)

lemma save_article_unlimited:
  assumes "max_articles s = None \<or> max_articles s = Some 0"
  shows "fst (save_article env s ad) \<longleftrightarrow>
           \<not> article_exists (db s) (data_url ad) \<and> strptime env (data_date ad) \<noteq> None \<and>
           next_oid s \<notin> set (map oid (articles (db s)))"
  using cap_disabled[OF assms]
  by (auto simp: save_article_def Let_def insert_article_def not_exists_find split: option.splits)

lemma save_article_max0:
  "save_article env (s\<lparr>max_articles := Some 0\<rparr>) ad =
     map_prod id (\<lambda>s'. s'\<lparr>max_articles := Some 0\<rparr>) (save_article env (s\<lparr>max_articles := None\<rparr>) ad)"
  by (simp add: save_article_def cap_reached_def Let_def split: option.splits sum.splits prod.splits)

lemma with_max_simps:
  "self (with_max m c) = (self c)\<lparr>max_articles := m\<rparr>"
  "page (with_max m c) = page c"
  "new_articles (with_max m c) = new_articles c"
  "consecutive_empty_pages (with_max m c) = consecutive_empty_pages c"
  "sleep n (with_max m c) = with_max m (sleep n c)"
  "with_max m (c\<lparr>consecutive_empty_pages := k\<rparr>) = (with_max m c)\<lparr>consecutive_empty_pages := k\<rparr>"
  "with_max m (c\<lparr>page := k\<rparr>) = (with_max m c)\<lparr>page := k\<rparr>"
  "with_max m (c\<lparr>new_articles := k\<rparr>) = (with_max m c)\<lparr>new_articles := k\<rparr>"
  by (simp_all add: with_max_def sleep_def)

lemma with_max_self:
  "max_articles s = None \<Longrightarrow> with_max (Some 0) (c\<lparr>self := s\<rparr>) = (with_max (Some 0) c)\<lparr>self := s\<lparr>max_articles := Some 0\<rparr>\<rparr>"
  by (simp add: with_max_def)

lemma none_update: "max_articles s = None \<Longrightarrow> s\<lparr>max_articles := None\<rparr> = s"
  by simp

lemma process_links_max0:
  "max_articles (self c) = None \<Longrightarrow>
   process_links env links (with_max (Some 0) c) n =
     map_prod (with_max (Some 0)) id (process_links env links c n)"
proof (induction links arbitrary: c n)
  case Nil
  then show ?case by simp
next
  case (Cons u rest)
  have nc: "\<not> cap_reached (self c)" "\<not> cap_reached (self (with_max (Some 0) c))"
    using Cons.prems by (simp_all add: cap_reached_def with_max_def)
  have dbe: "db (self (with_max (Some 0) c)) = db (self c)" by (simp add: with_max_def)
  show ?case
  proof (cases "article_exists (db (self c)) u")
    case True
    with nc dbe Cons.IH[OF Cons.prems] show ?thesis by simp
  next
    case ne: False
    show ?thesis
    proof (cases "scrape_article env (db (self c)) u")
      case None
      have "max_articles (self (sleep SCRAPE_DELAY c)) = None" using Cons.prems by (simp add: sleep_def)
      from Cons.IH[OF this] None ne nc dbe show ?thesis by (simp add: with_max_simps)
    next
      case (Some ad)
      obtain b s where sv: "save_article env (self c) ad = (b, s)"
        by (cases "save_article env (self c) ad")
      from save_article_effect[OF sv] Cons.prems have ms: "max_articles s = None" by simp
      have sv0: "save_article env (self (with_max (Some 0) c)) ad = (b, s\<lparr>max_articles := Some 0\<rparr>)"
        using save_article_max0[of env "self c" ad] sv none_update[OF Cons.prems]
        by (simp add: with_max_simps)
      show ?thesis
      proof (cases b)
        case True
        let ?c1 = "sleep SCRAPE_DELAY (c\<lparr>self := s, new_articles := new_articles c + 1\<rparr>)"
        have m1: "max_articles (self ?c1) = None" using ms by (simp add: sleep_def)
        have e: "sleep SCRAPE_DELAY ((with_max (Some 0) c)\<lparr>self := s\<lparr>max_articles := Some 0\<rparr>,
                    new_articles := new_articles (with_max (Some 0) c) + 1\<rparr>) = with_max (Some 0) ?c1"
          by (simp add: with_max_def sleep_def)
        from Cons.IH[OF m1] True Some ne nc dbe sv sv0 e show ?thesis by simp
      next
        case False
        let ?c1 = "sleep SCRAPE_DELAY (c\<lparr>self := s\<rparr>)"
        have m1: "max_articles (self ?c1) = None" using ms by (simp add: sleep_def)
        have e: "sleep SCRAPE_DELAY ((with_max (Some 0) c)\<lparr>self := s\<lparr>max_articles := Some 0\<rparr>\<rparr>) =
                 with_max (Some 0) ?c1"
          by (simp add: with_max_def sleep_def)
        from Cons.IH[OF m1] False Some ne nc dbe sv sv0 e show ?thesis by simp
      qed
    qed
  qed
qed

lemma page_step_not_fetched:
  assumes "page_links env c = None" "\<not> cap_reached (self c)"
  shows "page_step env c =
           Break (sleep (slept (fetch_page (http_get env (get_page_url (self c) (page c))))) c)"
  using assms
  by (auto simp: page_links_def page_step_def Let_def split: if_splits option.splits)

lemma page_step_max0:
  assumes "max_articles (self c) = None"
  shows "page_step env (with_max (Some 0) c) = step_with_max (Some 0) (page_step env c)"
proof -
  let ?w = "with_max (Some 0)"
  let ?k = "slept (fetch_page (http_get env (get_page_url (self c) (page c))))"
  have nc: "\<not> cap_reached (self c)" "\<not> cap_reached (self (?w c))"
    using assms by (simp_all add: cap_reached_def with_max_def)
  have u: "get_page_url (self (?w c)) (page (?w c)) = get_page_url (self c) (page c)"
    by (simp add: get_page_url_def with_max_def)
  have ple: "page_links env (?w c) = page_links env c"
    using nc u by (simp add: page_links_def)
  show ?thesis
  proof (cases "page_links env c")
    case None
    from page_step_not_fetched[OF None nc(1)] page_step_not_fetched[of env "?w c"] None ple nc(2) u
    show ?thesis by (simp add: with_max_simps)
  next
    case (Some links)
    let ?c0 = "sleep ?k c"
    let ?c1 = "if links = []
               then ?c0\<lparr>consecutive_empty_pages := consecutive_empty_pages ?c0 + 1\<rparr> else ?c0"
    have m1: "max_articles (self ?c1) = None" using assms by (simp add: sleep_def)
    obtain c2 n where pl: "process_links env links ?c1 0 = (c2, n)"
      by (cases "process_links env links ?c1 0")
    have w1: "(if links = []
               then (sleep ?k (?w c))\<lparr>consecutive_empty_pages :=
                       consecutive_empty_pages (sleep ?k (?w c)) + 1\<rparr>
               else sleep ?k (?w c)) = ?w ?c1"
      by (simp add: with_max_simps)
    have pl0: "process_links env links (?w ?c1) 0 = (?w c2, n)"
      using process_links_max0[OF m1, of env links 0] pl by simp
    have a: "page_step env c =
       (if links = [] \<and> max_empty_pages \<le> consecutive_empty_pages ?c1 then Break ?c1
        else if 0 < n
             then Next (sleep SCRAPE_DELAY (c2\<lparr>consecutive_empty_pages := 0, page := page c2 + 1\<rparr>))
             else if max_empty_pages \<le> consecutive_empty_pages c2 + 1
                  then Break (c2\<lparr>consecutive_empty_pages := consecutive_empty_pages c2 + 1\<rparr>)
                  else Next (sleep SCRAPE_DELAY
                         (c2\<lparr>consecutive_empty_pages := consecutive_empty_pages c2 + 1,
                             page := page c2 + 1\<rparr>)))"
      unfolding page_step_fetched[OF Some] Let_def pl by simp
    have "page_links env (?w c) = Some links" using ple Some by simp
    from page_step_fetched[OF this]
    have b: "page_step env (?w c) =
       (if links = [] \<and> max_empty_pages \<le> consecutive_empty_pages (?w ?c1) then Break (?w ?c1)
        else if 0 < n
             then Next (sleep SCRAPE_DELAY
                    ((?w c2)\<lparr>consecutive_empty_pages := 0, page := page (?w c2) + 1\<rparr>))
             else if max_empty_pages \<le> consecutive_empty_pages (?w c2) + 1
                  then Break ((?w c2)\<lparr>consecutive_empty_pages := consecutive_empty_pages (?w c2) + 1\<rparr>)
                  else Next (sleep SCRAPE_DELAY
                         ((?w c2)\<lparr>consecutive_empty_pages := consecutive_empty_pages (?w c2) + 1,
                             page := page (?w c2) + 1\<rparr>)))"
      unfolding u Let_def w1 pl0 by simp
    show ?thesis unfolding a b by (simp add: with_max_def sleep_def)
  qed
qed

lemma page_step_keeps_max:
  "max_articles (self (step_crawl (page_step env c))) = max_articles (self c)"
proof (cases "page_links env c")
  case None
  from page_step_no_page[OF this] show ?thesis by (auto simp: sleep_def)
next
  case (Some links)
  let ?c0 = "sleep (slept (fetch_page (http_get env (get_page_url (self c) (page c))))) c"
  let ?c1 = "if links = []
             then ?c0\<lparr>consecutive_empty_pages := consecutive_empty_pages ?c0 + 1\<rparr> else ?c0"
  obtain c2 n where pl: "process_links env links ?c1 0 = (c2, n)"
    by (cases "process_links env links ?c1 0")
  from process_links_effect[OF pl] have "max_articles (self c2) = max_articles (self c)"
    by (simp add: sleep_def)
  then show ?thesis
    unfolding page_step_fetched[OF Some] Let_def pl by (simp add: sleep_def)
qed

lemma scrape_loop_max0:
  "max_articles (self c) = None \<Longrightarrow>
   scrape_loop env fuel (with_max (Some 0) c) = map_option (with_max (Some 0)) (scrape_loop env fuel c)"
proof (induction fuel arbitrary: c)
  case 0
  then show ?case by simp
next
  case (Suc fuel)
  note st = page_step_max0[OF Suc.prems, of env]
  show ?case
  proof (cases "page_step env c")
    case (Break c')
    with st show ?thesis by simp
  next
    case (Next c')
    with page_step_keeps_max[of env c] Suc.prems have "max_articles (self c') = None" by simp
    from Suc.IH[OF this] st Next show ?thesis by simp
  qed
qed

lemma start_max0: "start (init_scraper sv b (Some 0)) = with_max (Some 0) (start (init_scraper sv b None))"
  by (simp add: start_def init_scraper_def with_max_def)

lemma save_article_within_cap:
  assumes "save_article env s ad = (b, s')" "max_articles s = Some m" "0 < m"
      and "int (new_articles_found s) \<le> m"
  shows "int (new_articles_found s') \<le> m"
proof (cases b)
  case True
  with save_article_effect[OF assms(1)] have "\<not> cap_reached s"
    and "new_articles_found s' = new_articles_found s + 1" by simp_all
  with assms(2,3) show ?thesis by (simp add: cap_reached_def)
next
  case False
  with save_article_effect[OF assms(1)] assms(4) show ?thesis by simp
qed

lemma process_links_within_cap:
  "process_links env links c n = (c', n') \<Longrightarrow> 0 < m \<Longrightarrow> within_cap m l c \<Longrightarrow> within_cap m l c'"
proof (induction links arbitrary: c n)
  case Nil
  then show ?case by simp
next
  case (Cons u rest)
  show ?case
  proof (cases "cap_reached (self c)")
    case True
    with Cons.prems show ?thesis by simp
  next
    case nc: False
    show ?thesis
    proof (cases "article_exists (db (self c)) u")
      case True
      with nc Cons.prems have "process_links env rest c n = (c', n')" by simp
      from Cons.IH[OF this Cons.prems(2,3)] show ?thesis .
    next
      case ne: False
      show ?thesis
      proof (cases "scrape_article env (db (self c)) u")
        case None
        with nc ne Cons.prems(1) have r: "process_links env rest (sleep SCRAPE_DELAY c) n = (c', n')"
          by simp
        have "within_cap m l (sleep SCRAPE_DELAY c)"
          using Cons.prems(3) by (simp add: within_cap_def sleep_def)
        from Cons.IH[OF r Cons.prems(2) this] show ?thesis .
      next
        case (Some ad)
        obtain b s where sv: "save_article env (self c) ad = (b, s)"
          by (cases "save_article env (self c) ad")
        note e = save_article_effect[OF sv]
        from Cons.prems(3) have mc: "max_articles (self c) = Some m"
          and le: "int (new_articles_found (self c)) \<le> m"
          and ln: "length (articles (db (self c))) = l + new_articles_found (self c)"
          by (simp_all add: within_cap_def)
        note b1 = save_article_within_cap[OF sv mc Cons.prems(2) le]
        show ?thesis
        proof (cases b)
          case True
          let ?c1 = "sleep SCRAPE_DELAY (c\<lparr>self := s, new_articles := new_articles c + 1\<rparr>)"
          from True nc ne Some sv Cons.prems(1)
          have r: "process_links env rest ?c1 (n + 1) = (c', n')" by simp
          have "within_cap m l ?c1" using e b1 mc ln True by (simp add: within_cap_def sleep_def)
          from Cons.IH[OF r Cons.prems(2) this] show ?thesis .
        next
          case False
          let ?c1 = "sleep SCRAPE_DELAY (c\<lparr>self := s\<rparr>)"
          from False nc ne Some sv Cons.prems(1)
          have r: "process_links env rest ?c1 n = (c', n')" by simp
          have "within_cap m l ?c1" using e b1 mc ln False by (simp add: within_cap_def sleep_def)
          from Cons.IH[OF r Cons.prems(2) this] show ?thesis .
        qed
      qed
    qed
  qed
qed

lemma page_step_within_cap:
  assumes "0 < m" "within_cap m l c"
  shows "within_cap m l (step_crawl (page_step env c))"
proof (cases "page_links env c")
  case None
  from page_step_no_page[OF this] assms(2) show ?thesis by (auto simp: sleep_def within_cap_def)
next
  case (Some links)
  let ?c0 = "sleep (slept (fetch_page (http_get env (get_page_url (self c) (page c))))) c"
  let ?c1 = "if links = []
             then ?c0\<lparr>consecutive_empty_pages := consecutive_empty_pages ?c0 + 1\<rparr> else ?c0"
  obtain c2 n where pl: "process_links env links ?c1 0 = (c2, n)"
    by (cases "process_links env links ?c1 0")
  have w1: "within_cap m l ?c1" using assms(2) by (simp add: within_cap_def sleep_def)
  from process_links_within_cap[OF pl assms(1) w1] have "within_cap m l c2" .
  with w1 show ?thesis
    unfolding page_step_fetched[OF Some] Let_def pl
    by (auto simp: sleep_def within_cap_def)
qed

lemma after_pages_within_cap:
  "0 < m \<Longrightarrow> within_cap m l (step_crawl st) \<Longrightarrow> within_cap m l (step_crawl (after_pages env n st))"
proof (induction env n st rule: after_pages.induct)
  case (3 env n c)
  from page_step_within_cap[OF "3.prems"(1), of l c env] "3.prems"(2)
  have "within_cap m l (step_crawl (page_step env c))" by simp
  from "3.IH"[OF "3.prems"(1) this] show ?case by simp
qed simp_all

lemma scrape_loop_after_pages:
  "scrape_loop env fuel c = Some c' \<Longrightarrow> after_pages env fuel (Next c) = Break c'"
proof (induction fuel arbitrary: c)
  case 0
  then show ?case by simp
next
  case (Suc fuel)
  show ?case
  proof (cases "page_step env c")
    case (Break d)
    with Suc.prems show ?thesis by (cases fuel) simp_all
  next
    case (Next d)
    with Suc.prems have "scrape_loop env fuel d = Some c'" by simp
    from Suc.IH[OF this] Next show ?thesis by simp
  qed
qed

lemma start_within_cap:
  "0 \<le> m \<Longrightarrow> within_cap m (length (articles (db sv))) (start (init_scraper sv b (Some m)))"
  by (simp add: within_cap_def start_def init_scraper_def)

text \<open>
  C10. With \<open>max_articles\<close> \<open>None\<close> or 0 the budget check never fires, and
  \<open>_save_article\<close> saves every article whose URL is new (provided its date parses and
  the store accepts the write); a whole session under \<open>max_articles = 0\<close> is, step for
  step, the session without a cap. Under a positive \<open>max_articles = m\<close> the session, after
  any number of passes through its loop and in particular when it returns, has counted at
  most \<open>m\<close> new articles and has added exactly that many documents to the store.
\<close>

theorem max_articles_zero_is_unlimited:
  "(max_articles s = None \<or> max_articles s = Some 0 \<longrightarrow>
      \<not> cap_reached s \<and>
      (fst (save_article env s ad) \<longleftrightarrow>
         \<not> article_exists (db s) (data_url ad) \<and> strptime env (data_date ad) \<noteq> None \<and>
         next_oid s \<notin> set (map oid (articles (db s))))) \<and>
   scrape_all_articles env fuel (init_scraper sv b (Some 0)) =
     map_option (with_max (Some 0)) (scrape_all_articles env fuel (init_scraper sv b None)) \<and>
   (0 < m \<longrightarrow>
      int (new_articles_found
             (self (step_crawl (after_pages env n (Next (start (init_scraper sv b (Some m)))))))) \<le> m \<and>
      length (articles (db
             (self (step_crawl (after_pages env n (Next (start (init_scraper sv b (Some m))))))))) =
        length (articles (db sv)) +
        new_articles_found
             (self (step_crawl (after_pages env n (Next (start (init_scraper sv b (Some m))))))) \<and>
      (\<forall>c'. scrape_all_articles env fuel (init_scraper sv b (Some m)) = Some c' \<longrightarrow>
         int (new_articles_found (self c')) \<le> m \<and>
         length (articles (db (self c'))) = length (articles (db sv)) + new_articles_found (self c')))"
proof (intro conjI impI allI)
  assume a: "max_articles s = None \<or> max_articles s = Some 0"
  from cap_disabled[OF a] show "\<not> cap_reached s" .
  from save_article_unlimited[OF a]
  show "fst (save_article env s ad) \<longleftrightarrow>
         \<not> article_exists (db s) (data_url ad) \<and> strptime env (data_date ad) \<noteq> None \<and>
         next_oid s \<notin> set (map oid (articles (db s)))" .
next
  have "max_articles (self (start (init_scraper sv b None))) = None"
    by (simp add: start_def init_scraper_def)
  from scrape_loop_max0[OF this, of env fuel]
  show "scrape_all_articles env fuel (init_scraper sv b (Some 0)) =
     map_option (with_max (Some 0)) (scrape_all_articles env fuel (init_scraper sv b None))"
    by (simp add: scrape_all_articles_start start_max0)
next
  assume m: "0 < m"
  let ?st = "after_pages env n (Next (start (init_scraper sv b (Some m))))"
  have "within_cap m (length (articles (db sv))) (step_crawl (Next (start (init_scraper sv b (Some m)))))"
    using start_within_cap[of m sv b] m by simp
  from after_pages_within_cap[OF m this, of env n]
  have w: "within_cap m (length (articles (db sv))) (step_crawl ?st)" .
  from w show "int (new_articles_found (self (step_crawl ?st))) \<le> m" by (simp add: within_cap_def)
  from w show "length (articles (db (self (step_crawl ?st)))) =
        length (articles (db sv)) + new_articles_found (self (step_crawl ?st))"
    by (simp add: within_cap_def)
next
  fix c' assume m: "0 < m" and r: "scrape_all_articles env fuel (init_scraper sv b (Some m)) = Some c'"
  from r have "after_pages env fuel (Next (start (init_scraper sv b (Some m)))) = Break c'"
    unfolding scrape_all_articles_start by (rule scrape_loop_after_pages)
  moreover have "within_cap m (length (articles (db sv))) (step_crawl (Next (start (init_scraper sv b (Some m)))))"
    using start_within_cap[of m sv b] m by simp
  from after_pages_within_cap[OF m this, of env fuel]
  have "within_cap m (length (articles (db sv)))
          (step_crawl (after_pages env fuel (Next (start (init_scraper sv b (Some m))))))" .
  ultimately have w: "within_cap m (length (articles (db sv))) c'" by simp
  from w show "int (new_articles_found (self c')) \<le> m" by (simp add: within_cap_def)
  from w show "length (articles (db (self c'))) = length (articles (db sv)) + new_articles_found (self c')"
    by (simp add: within_cap_def)
qed

lemma flaky_fetch:
  "fetch_page example_flaky_get = \<lparr>body = Some ''page'', requests = 3, slept = 2\<rparr>"
  by (simp add: fetch_page_cases example_flaky_get_def)

lemma down_fetch:
  "body (fetch_page (http_get example_down_site
           (get_page_url (self (start (init_scraper example_service ''b'' None)))
              (page (start (init_scraper example_service ''b'' None)))))) = None"
  by (simp add: fetch_page_cases example_down_site_def down_http_get_def)

text \<open>
  Two requests that raise and a third that gets status 200: three requests, two seconds
  slept, the page returned. And a session on a site that is down stops on page 0.
\<close>

theorem fetch_page_retries_raises_only_witness:
  "fetch_page example_flaky_get = \<lparr>body = Some ''page'', requests = 3, slept = 2\<rparr> \<and>
   example_flaky_get 0 = Raises \<and> example_flaky_get 1 = Raises \<and>
   example_flaky_get 2 = Status 200 ''page'' \<and>
   (\<exists>c'. scrape_loop example_down_site 1 (start (init_scraper example_service ''b'' None)) = Some c' \<and>
         page c' = 0 \<and> db (self c') = db example_service)"
proof -
  note t = fetch_page_retries_raises_only[of example_flaky_get example_down_site
      "start (init_scraper example_service ''b'' None)"]
  from t flaky_fetch have g: "example_flaky_get 0 = Raises \<and> example_flaky_get 1 = Raises \<and>
     example_flaky_get 2 = Status 200 ''page''"
    by (simp add: example_flaky_get_def)
  from t down_fetch
  obtain c' where "scrape_loop example_down_site (Suc 0) (start (init_scraper example_service ''b'' None)) = Some c'"
    and "page c' = page (start (init_scraper example_service ''b'' None))"
    and "db (self c') = db (self (start (init_scraper example_service ''b'' None)))"
    by blast
  then have "\<exists>c'. scrape_loop example_down_site 1 (start (init_scraper example_service ''b'' None)) = Some c' \<and>
         page c' = 0 \<and> db (self c') = db example_service"
    by (simp add: start_def init_scraper_def)
  with g flaky_fetch show ?thesis by simp
qed

text \<open>
  C8 as stated fails: a first response with status 500 ends \<open>fetch_page\<close> after one
  request and without a page, although the next request would have got status 200.
\<close>

theorem fetch_page_non_200_counterexample:
  "fetch_page example_busy_get = \<lparr>body = None, requests = 1, slept = 0\<rparr> \<and>
   example_busy_get 0 = Status 500 ''busy'' \<and> example_busy_get 1 = Status 200 ''page''"
  by (simp add: fetch_page_cases example_busy_get_def)






lemma capped_0: "map_option stored_count (scrape_all_articles example_site 5 (init_scraper example_service ''b'' (Some 0))) = Some 4"
  by code_simp
lemma capped_none: "map_option stored_count (scrape_all_articles example_site 5 (init_scraper example_service ''b'' None)) = Some 4"
  by code_simp
lemma capped_2: "map_option stored_count (scrape_all_articles example_site 5 (init_scraper example_service ''b'' (Some 2))) = Some 3"
  by code_simp
text \<open>
  On the example site, whose first page links three new articles, the session saves all
  three under \<open>max_articles = 0\<close> as it does without a cap (four stored documents), and
  two under \<open>max_articles = 2\<close>.
\<close>

theorem max_articles_zero_is_unlimited_witness:
  "max_articles (init_scraper example_service ''b'' (Some 0)) = Some 0 \<and>
   \<not> cap_reached (init_scraper example_service ''b'' (Some 0)) \<and>
   fst (save_article example_site (init_scraper example_service ''b'' (Some 0)) example_data) \<and>
   length (articles (db example_service)) = 1 \<and>
   map_option stored_count
     (scrape_all_articles example_site 5 (init_scraper example_service ''b'' (Some 0))) = Some 4 \<and>
   map_option stored_count
     (scrape_all_articles example_site 5 (init_scraper example_service ''b'' None)) = Some 4 \<and>
   (0::int) < 2 \<and>
   map_option stored_count
     (scrape_all_articles example_site 5 (init_scraper example_service ''b'' (Some 2))) = Some 3"
proof -
  note t = max_articles_zero_is_unlimited[of "init_scraper example_service ''b'' (Some 0)"
      example_site example_data 5 example_service "''b''" 2 5]
  have a: "max_articles (init_scraper example_service ''b'' (Some 0)) = Some 0"
    by (simp add: init_scraper_def)
  with t have "\<not> cap_reached (init_scraper example_service ''b'' (Some 0))" by blast
  moreover from t a
  have "fst (save_article example_site (init_scraper example_service ''b'' (Some 0)) example_data)"
    by (simp add: init_scraper_def example_service_def example_site_def example_data_def
        example_strptime_def article_exists_def example_article_def)
  moreover have "length (articles (db example_service)) = 1" by (simp add: example_service_def)
  ultimately show ?thesis using a capped_0 capped_none capped_2 by simp
qed

section \<open>Properties of the document store\<close>

lemma set_update_first_const:
  "set (update_first P (\<lambda>_. a) xs) \<subseteq> insert a (set xs)"
  by (induction xs) auto

lemma length_update_first: "length (update_first P f xs) = length xs"
  by (induction xs) auto

lemma update_first_url:
  "url a = u \<Longrightarrow> map url (update_first (\<lambda>x. url x = u) (\<lambda>_. a) xs) = map url xs"
  by (induction xs) auto

lemma update_first_member:
  "\<exists>x \<in> set xs. P x \<Longrightarrow> a \<in> set (update_first P (\<lambda>_. a) xs)"
  by (induction xs) auto

lemma find_Some_exists: "find P xs = Some x \<Longrightarrow> \<exists>y \<in> set xs. P y"
  by (induction xs) (auto split: if_splits)

lemma distinct_count_one:
  "distinct (map f xs) \<Longrightarrow> \<exists>x \<in> set xs. f x = k \<Longrightarrow> length (filter (\<lambda>x. f x = k) xs) = 1"
proof (induction xs)
  case Nil
  then show ?case by simp
next
  case (Cons x xs)
  show ?case
  proof (cases "f x = k")
    case True
    with Cons.prems(1) have "k \<notin> f ` set xs" by simp
    then have "\<forall>y \<in> set xs. f y \<noteq> k" by blast
    then have "filter (\<lambda>x. f x = k) xs = []" by (simp add: filter_empty_conv)
    with True show ?thesis by simp
  next
    case False
    with Cons show ?thesis by auto
  qed
qed

lemma insert_article_effect:
  assumes "url_unique d" and "insert_article d a = Inr (r, d')"
  shows "url_unique d' \<and>
         length (filter (\<lambda>x. url x = url a) (articles d')) = 1 \<and>
         a \<in> set (articles d') \<and>
         (article_exists d (url a) \<longrightarrow>
            length (articles d') = length (articles d) \<and> map url (articles d') = map url (articles d)) \<and>
         (\<not> article_exists d (url a) \<longrightarrow> articles d' = articles d @ [a])"
proof (cases "find (\<lambda>x. url x = url a) (articles d)")
  case None
  then have ne: "\<not> article_exists d (url a)"
    by (auto simp: article_exists_def find_None_iff filter_empty_conv)
  from None assms(2) have d': "articles d' = articles d @ [a]"
    by (auto simp: insert_article_def split: if_splits)
  from None have nu: "url a \<notin> set (map url (articles d))" by (auto simp: find_None_iff)
  with assms(1) have u: "url_unique d'" by (simp add: url_unique_def d')
  have "\<exists>x \<in> set (articles d'). url x = url a" by (simp add: d')
  from distinct_count_one[OF u[unfolded url_unique_def] this]
  show ?thesis using u d' ne by simp
next
  case (Some x)
  from find_Some_exists[OF Some] have ex: "\<exists>y \<in> set (articles d). url y = url a" .
  then have e: "article_exists d (url a)"
    by (auto simp: article_exists_def filter_empty_conv)
  from Some assms(2) have d': "articles d' = update_first (\<lambda>x. url x = url a) (\<lambda>_. a) (articles d)"
    by (auto simp: insert_article_def split: if_splits)
  have m: "map url (articles d') = map url (articles d)" by (simp add: d' update_first_url)
  with assms(1) have u: "url_unique d'" by (simp add: url_unique_def)
  have mem: "a \<in> set (articles d')" unfolding d' using ex by (rule update_first_member)
  then have "\<exists>x \<in> set (articles d'). url x = url a" by blast
  from distinct_count_one[OF u[unfolded url_unique_def] this]
  have "length (filter (\<lambda>x. url x = url a) (articles d')) = 1" .
  moreover have "length (articles d') = length (articles d)" by (simp add: d' length_update_first)
  ultimately show ?thesis using u mem m e by simp
qed

text \<open>
  Whenever \<open>insert_article\<close> returns on a store without duplicate URLs, the store still
  has none, exactly one stored document has the article's URL, and it is the article; if
  the URL was stored before, no document was added and the URLs are as before, otherwise
  the article was appended.
\<close>

theorem insert_article_keeps_urls_unique:
  assumes "url_unique d" and "insert_article d a = Inr (r, d')"
  shows "url_unique d' \<and>
         length (filter (\<lambda>x. url x = url a) (articles d')) = 1 \<and>
         a \<in> set (articles d') \<and>
         (article_exists d (url a) \<longrightarrow>
            length (articles d') = length (articles d) \<and>
            map url (articles d') = map url (articles d)) \<and>
         (\<not> article_exists d (url a) \<longrightarrow> articles d' = articles d @ [a])"
  using assms by (rule insert_article_effect)

lemma stored_u1:
  "article_exists (db example_service) ''u1''"
  by (simp add: article_exists_def example_service_def example_article_def)

text \<open>
  C7, at the failing input. The store holds a document for the URL \<open>u1\<close> under \<open>_id\<close> 1;
  an article built anew for the same URL carries a new \<open>_id\<close> (here 3), and
  \<open>insert_article\<close> raises instead of updating the stored document.
\<close>

theorem insert_article_fresh_id_rejected:
  "article_exists (db example_service) (url (example_article 3 ''u1'' ''usao'' ''new text'')) \<and>
   insert_article (db example_service) (example_article 3 ''u1'' ''usao'' ''new text'') = Inl WriteError"
  by (simp add: insert_article_def article_exists_def example_service_def example_article_def)

lemma resave: "insert_article (db example_service) ((example_article 1 ''u1'' ''usao'' ''new text'')) =
   Inr (Modified 1, \<lparr>articles = [example_article 1 ''u1'' ''usao'' ''new text''], chunks = []\<rparr>)"
  by (simp add: insert_article_def article_exists_def example_service_def example_article_def)

text \<open>
  Inserting the stored document again with a new text, under its own \<open>_id\<close>, replaces it.
\<close>

theorem insert_article_keeps_urls_unique_witness:
  "url_unique (db example_service) \<and>
   insert_article (db example_service) (example_article 1 ''u1'' ''usao'' ''new text'') =
     Inr (Modified 1, \<lparr>articles = [example_article 1 ''u1'' ''usao'' ''new text''], chunks = []\<rparr>) \<and>
   url_unique \<lparr>articles = [example_article 1 ''u1'' ''usao'' ''new text''], chunks = []\<rparr> \<and>
   article_exists (db example_service) ''u1''"
proof -
  have u: "url_unique (db example_service)" by (simp add: url_unique_def example_service_def)
  from insert_article_keeps_urls_unique[OF u resave]
  have "url_unique \<lparr>articles = [example_article 1 ''u1'' ''usao'' ''new text''], chunks = []\<rparr>" by blast
  with u resave stored_u1 show ?thesis by simp
qed

text \<open>
  Every sequence of \<open>insert_article\<close> calls keeps the store free of duplicate URLs.
\<close>

theorem insert_articles_urls_unique:
  "url_unique d \<Longrightarrow> url_unique (insert_articles d as)"
proof (induction as arbitrary: d)
  case Nil
  then show ?case by simp
next
  case (Cons a rest)
  show ?case
  proof (cases "insert_article d a")
    case (Inl e)
    with Cons show ?thesis by simp
  next
    case (Inr p)
    obtain r d' where p: "p = (r, d')" by (cases p)
    from insert_article_effect[OF Cons.prems, of a r d'] Inr p
    have "url_unique d'" by simp
    from Cons.IH[OF this] Inr p show ?thesis by simp
  qed
qed

text \<open>
  Three inserts for one URL on the empty store: the first inserts, the second (another
  \<open>_id\<close>) is rejected, the third (the stored \<open>_id\<close>) updates; one document is stored.
\<close>

theorem insert_articles_urls_unique_witness:
  "url_unique \<lparr>articles = [], chunks = []\<rparr> \<and>
   insert_articles \<lparr>articles = [], chunks = []\<rparr>
     [example_article 1 ''u1'' ''usao'' ''a'', example_article 2 ''u1'' ''usao'' ''b'',
      example_article 1 ''u1'' ''usao'' ''c''] =
     \<lparr>articles = [example_article 1 ''u1'' ''usao'' ''c''], chunks = []\<rparr> \<and>
   url_unique \<lparr>articles = [example_article 1 ''u1'' ''usao'' ''c''], chunks = []\<rparr>"
proof -
  have u: "url_unique \<lparr>articles = [], chunks = []\<rparr>" by (simp add: url_unique_def)
  have e: "insert_articles \<lparr>articles = [], chunks = []\<rparr>
     [example_article 1 ''u1'' ''usao'' ''a'', example_article 2 ''u1'' ''usao'' ''b'',
      example_article 1 ''u1'' ''usao'' ''c''] =
     \<lparr>articles = [example_article 1 ''u1'' ''usao'' ''c''], chunks = []\<rparr>"
    by (simp add: insert_article_def example_article_def)
  from insert_articles_urls_unique[OF u, of "[example_article 1 ''u1'' ''usao'' ''a'', example_article 2 ''u1'' ''usao'' ''b'',
      example_article 1 ''u1'' ''usao'' ''c'']"] e u show ?thesis by simp
qed

end
